theory Spec2Isabelle
  imports
    Complex_Main
    "HOL-Library.Char_ord"
    "HOL-Library.List_Lexorder"
    "HOL-Library.Monad_Syntax"
    "HOL-Library.Multiset"
begin

section \<open>Transaction store and chain traversal of the crypto transaction tracker\<close>

text \<open>
  A shallow embedding of \<^verbatim>\<open>src/models/transaction.py\<close> and
  \<^verbatim>\<open>src/utils/database.py\<close>. The store is an SQLite file with two tables. A
  \<^verbatim>\<open>Transaction\<close> is written as a row of text and number cells
  (\<^verbatim>\<open>isoformat\<close>, the enum's \<^verbatim>\<open>value\<close>, \<^verbatim>\<open>json.dumps\<close>) and read
  back with \<^verbatim>\<open>json.loads\<close> and \<^verbatim>\<open>Transaction.from_dict\<close>. Every exception of
  the source is a value \<open>Inl e\<close> of the result type \<open>error + 'a\<close>.
\<close>

subsection \<open>Exceptions\<close>

datatype error =
    OperationalError
  | TypeError
  | ValueError
  | JSONDecodeError
  | AttributeError

subsection \<open>Enumerations of \<^verbatim>\<open>transaction.py\<close>\<close>

datatype TransactionType =
  DEPOSIT | WITHDRAWAL | PURCHASE | SALE | TRANSFER | SWAP | FEE | UNKNOWN

datatype TransactionSource =
  EXCHANGE | BLOCKCHAIN | DEX | MANUAL

text \<open>The member's \<^verbatim>\<open>.value\<close>.\<close>

fun TransactionType_value :: "TransactionType \<Rightarrow> string" where
  "TransactionType_value DEPOSIT = ''deposit''"
| "TransactionType_value WITHDRAWAL = ''withdrawal''"
| "TransactionType_value PURCHASE = ''purchase''"
| "TransactionType_value SALE = ''sale''"
| "TransactionType_value TRANSFER = ''transfer''"
| "TransactionType_value SWAP = ''swap''"
| "TransactionType_value FEE = ''fee''"
| "TransactionType_value UNKNOWN = ''unknown''"

fun TransactionSource_value :: "TransactionSource \<Rightarrow> string" where
  "TransactionSource_value EXCHANGE = ''exchange''"
| "TransactionSource_value BLOCKCHAIN = ''blockchain''"
| "TransactionSource_value DEX = ''dex''"
| "TransactionSource_value MANUAL = ''manual''"

text \<open>
  The call \<^verbatim>\<open>TransactionType(s)\<close>: lookup of a member by value, \<^verbatim>\<open>ValueError\<close>
  when no member has it.
\<close>

definition TransactionType_of_value :: "string \<Rightarrow> error + TransactionType" where
  "TransactionType_of_value s =
     (case find (\<lambda>m. TransactionType_value m = s)
             [DEPOSIT, WITHDRAWAL, PURCHASE, SALE, TRANSFER, SWAP, FEE, UNKNOWN] of
        None \<Rightarrow> Inl ValueError
      | Some m \<Rightarrow> Inr m)"

definition TransactionSource_of_value :: "string \<Rightarrow> error + TransactionSource" where
  "TransactionSource_of_value s =
     (case find (\<lambda>m. TransactionSource_value m = s) [EXCHANGE, BLOCKCHAIN, DEX, MANUAL] of
        None \<Rightarrow> Inl ValueError
      | Some m \<Rightarrow> Inr m)"

subsection \<open>Python's \<^verbatim>\<open>datetime\<close>\<close>

text \<open>
  A \<^verbatim>\<open>datetime\<close> has the seven calendar fields and an optional time zone. It is
  \<^emph>\<open>naive\<close> when \<open>tzinfo\<close> is \<open>None\<close> and \<^emph>\<open>aware\<close> otherwise; the zone is kept as its
  UTC offset in whole minutes. The Ethereum adapter builds naive values
  (\<^verbatim>\<open>datetime.fromtimestamp\<close>), the Coinbase adapter aware ones (offset \<open>+00:00\<close>).
\<close>

record datetime =
  year :: nat
  month :: nat
  day :: nat
  hour :: nat
  minute :: nat
  second :: nat
  microsecond :: nat
  tzinfo :: "int option"

definition is_leap :: "nat \<Rightarrow> bool" where
  "is_leap y = (y mod 4 = 0 \<and> (y mod 100 \<noteq> 0 \<or> y mod 400 = 0))"

definition days_in_month :: "nat \<Rightarrow> nat \<Rightarrow> nat" where
  "days_in_month y m =
     (if m = 2 then (if is_leap y then 29 else 28)
      else if m = 4 \<or> m = 6 \<or> m = 9 \<or> m = 11 then 30 else 31)"

text \<open>What the constructor of \<^verbatim>\<open>datetime\<close> accepts; anything else is a \<^verbatim>\<open>ValueError\<close>.\<close>

definition valid_datetime :: "datetime \<Rightarrow> bool" where
  "valid_datetime d =
     (1 \<le> year d \<and> year d \<le> 9999 \<and> 1 \<le> month d \<and> month d \<le> 12 \<and>
      1 \<le> day d \<and> day d \<le> days_in_month (year d) (month d) \<and>
      hour d < 24 \<and> minute d < 60 \<and> second d < 60 \<and> microsecond d < 1000000 \<and>
      (case tzinfo d of None \<Rightarrow> True | Some off \<Rightarrow> - 1440 < off \<and> off < 1440))"

subsubsection \<open>\<^verbatim>\<open>isoformat\<close>\<close>

definition digit_char :: "nat \<Rightarrow> char" where
  "digit_char n = ''0123456789'' ! (n mod 10)"

text \<open>\<open>zpad k n\<close> is \<^verbatim>\<open>"%0kd" % n\<close> for \<open>n < 10 ^ k\<close>, most significant digit first.\<close>

fun zpad :: "nat \<Rightarrow> nat \<Rightarrow> string" where
  "zpad 0 n = []"
| "zpad (Suc k) n = digit_char (n div 10 ^ k) # zpad k (n mod 10 ^ k)"

definition format_fraction :: "nat \<Rightarrow> string" where
  "format_fraction us = (if us = 0 then [] else CHR ''.'' # zpad 6 us)"

definition format_offset :: "int option \<Rightarrow> string" where
  "format_offset tz =
     (case tz of
        None \<Rightarrow> []
      | Some off \<Rightarrow>
          (if off < 0 then CHR ''-'' else CHR ''+'') #
          zpad 2 (nat \<bar>off\<bar> div 60) @ CHR '':'' # zpad 2 (nat \<bar>off\<bar> mod 60))"

text \<open>
  \<^verbatim>\<open>YYYY-MM-DDTHH:MM:SS\<close>, then \<^verbatim>\<open>.ffffff\<close> when the microsecond is not zero, then
  \<^verbatim>\<open>+HH:MM\<close> or \<^verbatim>\<open>-HH:MM\<close> when the value is aware.
\<close>

definition isoformat :: "datetime \<Rightarrow> string" where
  "isoformat d =
     zpad 4 (year d) @ CHR ''-'' # zpad 2 (month d) @ CHR ''-'' # zpad 2 (day d) @
     CHR ''T'' # zpad 2 (hour d) @ CHR '':'' # zpad 2 (minute d) @ CHR '':'' # zpad 2 (second d) @
     format_fraction (microsecond d) @ format_offset (tzinfo d)"

subsubsection \<open>\<^verbatim>\<open>fromisoformat\<close>\<close>

definition digit_val :: "char \<Rightarrow> nat option" where
  "digit_val c = map_of (zip ''0123456789'' [0, 1, 2, 3, 4, 5, 6, 7, 8, 9]) c"

text \<open>Exactly \<open>k\<close> decimal digits at the front of the text, and the rest of the text.\<close>

fun read_digits :: "nat \<Rightarrow> string \<Rightarrow> (nat \<times> string) option" where
  "read_digits 0 s = Some (0, s)"
| "read_digits (Suc k) [] = None"
| "read_digits (Suc k) (c # s) =
     (case digit_val c of
        None \<Rightarrow> None
      | Some v \<Rightarrow>
          (case read_digits k s of
             None \<Rightarrow> None
           | Some (n, r) \<Rightarrow> Some (v * 10 ^ k + n, r)))"

fun expect :: "char \<Rightarrow> string \<Rightarrow> string option" where
  "expect c [] = None"
| "expect c (x # s) = (if x = c then Some s else None)"

fun read_fraction :: "string \<Rightarrow> (nat \<times> string) option" where
  "read_fraction [] = Some (0, [])"
| "read_fraction (c # s) = (if c = CHR ''.'' then read_digits 6 s else Some (0, c # s))"

fun read_offset :: "string \<Rightarrow> int option option" where
  "read_offset [] = Some None"
| "read_offset (c # s) =
     (if c = CHR ''+'' \<or> c = CHR ''-'' then
        do {
          (h, s1) \<leftarrow> read_digits 2 s;
          s2 \<leftarrow> expect (CHR '':'') s1;
          (m, s3) \<leftarrow> read_digits 2 s2;
          if s3 = [] \<and> m < 60
          then Some (Some ((if c = CHR ''-'' then - 1 else 1) * int (h * 60 + m)))
          else None
        }
      else None)"

text \<open>
  The parser reads the texts that \<open>isoformat\<close> writes. Python 3.11 reads a few more
  ISO 8601 spellings; cells of the store are written by \<open>isoformat\<close> only, so those
  spellings are texts the store never holds and are rejected here.
\<close>

definition parse_isoformat :: "string \<Rightarrow> datetime option" where
  "parse_isoformat s0 =
     do {
       (y, s1) \<leftarrow> read_digits 4 s0;
       s2 \<leftarrow> expect (CHR ''-'') s1;
       (mo, s3) \<leftarrow> read_digits 2 s2;
       s4 \<leftarrow> expect (CHR ''-'') s3;
       (dd, s5) \<leftarrow> read_digits 2 s4;
       s6 \<leftarrow> expect (CHR ''T'') s5;
       (h, s7) \<leftarrow> read_digits 2 s6;
       s8 \<leftarrow> expect (CHR '':'') s7;
       (mi, s9) \<leftarrow> read_digits 2 s8;
       s10 \<leftarrow> expect (CHR '':'') s9;
       (se, s11) \<leftarrow> read_digits 2 s10;
       (us, s12) \<leftarrow> read_fraction s11;
       tz \<leftarrow> read_offset s12;
       Some \<lparr>year = y, month = mo, day = dd, hour = h, minute = mi, second = se,
             microsecond = us, tzinfo = tz\<rparr>
     }"

definition fromisoformat :: "string \<Rightarrow> error + datetime" where
  "fromisoformat s =
     (case parse_isoformat s of
        None \<Rightarrow> Inl ValueError
      | Some d \<Rightarrow> if valid_datetime d then Inr d else Inl ValueError)"

subsubsection \<open>Comparison\<close>

text \<open>
  Two naive values compare field by field. Two aware values compare as instants: the
  offset is subtracted first. Comparing a naive with an aware value raises
  \<^verbatim>\<open>TypeError: can't compare offset-naive and offset-aware datetimes\<close>.
\<close>

definition calendar_fields :: "datetime \<Rightarrow> nat list" where
  "calendar_fields d = [year d, month d, day d, hour d, minute d, second d, microsecond d]"

definition days_before_year :: "nat \<Rightarrow> nat" where
  "days_before_year y = (y - 1) * 365 + (y - 1) div 4 - (y - 1) div 100 + (y - 1) div 400"

definition days_before_month :: "nat \<Rightarrow> nat \<Rightarrow> nat" where
  "days_before_month y m = sum_list (map (days_in_month y) [1..<m])"

definition toordinal :: "datetime \<Rightarrow> nat" where
  "toordinal d = days_before_year (year d) + days_before_month (year d) (month d) + day d"

definition utc_micros :: "datetime \<Rightarrow> int" where
  "utc_micros d =
     (((int (toordinal d) * 24 + int (hour d)) * 60 + int (minute d)
        - (case tzinfo d of None \<Rightarrow> 0 | Some off \<Rightarrow> off)) * 60 + int (second d)) * 1000000
     + int (microsecond d)"

definition datetime_lt :: "datetime \<Rightarrow> datetime \<Rightarrow> error + bool" where
  "datetime_lt a b =
     (case (tzinfo a, tzinfo b) of
        (None, None) \<Rightarrow> Inr (calendar_fields a < calendar_fields b)
      | (Some x, Some y) \<Rightarrow> Inr (utc_micros a < utc_micros b)
      | _ \<Rightarrow> Inl TypeError)"

subsection \<open>Python values and JSON documents\<close>

text \<open>
  \<^verbatim>\<open>raw_data\<close> is a \<^verbatim>\<open>Dict[str, Any]\<close> and the dataclass checks no field type,
  so the two fields that travel as JSON hold Python values: \<^verbatim>\<open>None\<close>, booleans,
  integers, finite floats, strings, lists, tuples, dictionaries with string keys, and
  \<^verbatim>\<open>bytes\<close> (which the web3 adapter's payloads contain and JSON cannot encode).
\<close>

datatype pyval =
    PNone
  | PBool bool
  | PInt int
  | PFloat real
  | PStr string
  | PList "pyval list"
  | PTuple "pyval list"
  | PDict "(string \<times> pyval) list"
  | PBytes string

datatype json =
    JNull
  | JBool bool
  | JInt int
  | JFloat real
  | JStr string
  | JArr "json list"
  | JObj "(string \<times> json) list"

text \<open>
  The encoder's translation table: lists and tuples both become arrays; a value of
  another type is a \<^verbatim>\<open>TypeError\<close> (\<open>None\<close> here).
\<close>

fun to_json :: "pyval \<Rightarrow> json option" where
  "to_json PNone = Some JNull"
| "to_json (PBool b) = Some (JBool b)"
| "to_json (PInt i) = Some (JInt i)"
| "to_json (PFloat x) = Some (JFloat x)"
| "to_json (PStr s) = Some (JStr s)"
| "to_json (PList xs) = map_option JArr (those (map to_json xs))"
| "to_json (PTuple xs) = map_option JArr (those (map to_json xs))"
| "to_json (PDict kvs) =
     map_option JObj (those (map (\<lambda>kv. map_option (Pair (fst kv)) (to_json (snd kv))) kvs))"
| "to_json (PBytes b) = None"

text \<open>The decoder's translation table: an array becomes a list.\<close>

fun of_json :: "json \<Rightarrow> pyval" where
  "of_json JNull = PNone"
| "of_json (JBool b) = PBool b"
| "of_json (JInt i) = PInt i"
| "of_json (JFloat x) = PFloat x"
| "of_json (JStr s) = PStr s"
| "of_json (JArr xs) = PList (map of_json xs)"
| "of_json (JObj kvs) = PDict (map (\<lambda>kv. (fst kv, of_json (snd kv))) kvs)"

text \<open>
  A text cell that \<^verbatim>\<open>json.loads\<close> reads is kept as the document it denotes, or as
  text that is no JSON document; the printer and the parser of the \<^verbatim>\<open>json\<close> module
  are taken to be inverse to each other on documents.
\<close>

datatype text_cell = JsonText json | OtherText string

definition json_dumps :: "pyval \<Rightarrow> error + text_cell" where
  "json_dumps v = (case to_json v of None \<Rightarrow> Inl TypeError | Some j \<Rightarrow> Inr (JsonText j))"

fun json_loads :: "text_cell \<Rightarrow> error + pyval" where
  "json_loads (JsonText j) = Inr (of_json j)"
| "json_loads (OtherText s) = Inl JSONDecodeError"

text \<open>The test \<^verbatim>\<open>x in v\<close> for a string \<open>x\<close>, and \<^verbatim>\<open>v.append(x)\<close>.\<close>

fun starts_with :: "string \<Rightarrow> string \<Rightarrow> bool" where
  "starts_with [] s = True"
| "starts_with (c # x) [] = False"
| "starts_with (c # x) (d # s) = (c = d \<and> starts_with x s)"

fun contains_str :: "string \<Rightarrow> string \<Rightarrow> bool" where
  "contains_str x [] = (x = [])"
| "contains_str x (d # s) = (starts_with x (d # s) \<or> contains_str x s)"

fun py_in :: "string \<Rightarrow> pyval \<Rightarrow> error + bool" where
  "py_in x (PList xs) = Inr (PStr x \<in> set xs)"
| "py_in x (PTuple xs) = Inr (PStr x \<in> set xs)"
| "py_in x (PDict kvs) = Inr (x \<in> set (map fst kvs))"
| "py_in x (PStr s) = Inr (contains_str x s)"
| "py_in x v = Inl TypeError"

fun py_append :: "pyval \<Rightarrow> string \<Rightarrow> error + pyval" where
  "py_append (PList xs) x = Inr (PList (xs @ [PStr x]))"
| "py_append v x = Inl AttributeError"

subsection \<open>The record model\<close>

record Transaction =
  tx_id :: string
  timestamp :: datetime
  transaction_type :: TransactionType
  source :: TransactionSource
  amount :: real
  currency :: string
  fee :: real
  fee_currency :: string
  status :: string
  tx_notes :: string
  raw_data :: pyval
  related_transactions :: pyval

text \<open>A row of the table \<^verbatim>\<open>transactions\<close>: the cells in the order of the schema.\<close>

record row =
  col_id :: string
  col_timestamp :: string
  col_transaction_type :: string
  col_source :: string
  col_amount :: real
  col_currency :: string
  col_fee :: real
  col_fee_currency :: string
  col_status :: string
  col_notes :: string
  col_raw_data :: text_cell
  col_related_transactions :: text_cell

text \<open>
  \<^verbatim>\<open>Transaction.from_dict(data)\<close>, where \<open>data\<close> is the row as a dictionary whose
  \<^verbatim>\<open>raw_data\<close> and \<^verbatim>\<open>related_transactions\<close> entries the caller has replaced by the
  loaded values. The three text entries are converted in the order of the source, each
  conversion may raise; the other entries are passed to the constructor as they are.
\<close>

definition from_dict :: "row \<Rightarrow> pyval \<Rightarrow> pyval \<Rightarrow> error + Transaction" where
  "from_dict data raw rel =
     (case fromisoformat (col_timestamp data) of
        Inl e \<Rightarrow> Inl e
      | Inr ts \<Rightarrow>
     (case TransactionType_of_value (col_transaction_type data) of
        Inl e \<Rightarrow> Inl e
      | Inr ty \<Rightarrow>
     (case TransactionSource_of_value (col_source data) of
        Inl e \<Rightarrow> Inl e
      | Inr src \<Rightarrow>
          Inr \<lparr>tx_id = col_id data, timestamp = ts, transaction_type = ty, source = src,
               amount = col_amount data, currency = col_currency data, fee = col_fee data,
               fee_currency = col_fee_currency data, status = col_status data,
               tx_notes = col_notes data, raw_data = raw, related_transactions = rel\<rparr>)))"

subsection \<open>The store\<close>

record link =
  parent_id :: string
  child_id :: string
  relationship_type :: string

text \<open>
  The database file: the committed rows of both tables in insertion order, and whether
  an open connection holds SQLite's write lock. Python's \<^verbatim>\<open>sqlite3\<close> begins a
  transaction before an \<^verbatim>\<open>INSERT\<close> and the connection keeps the write lock until it
  commits or closes; a write through another connection waits for the busy timeout and
  raises \<^verbatim>\<open>OperationalError: database is locked\<close>, while reads go through and see the
  committed rows.
\<close>

record database =
  transactions :: "row list"
  transaction_links :: "link list"
  reserved :: bool

definition empty_database :: database where
  "empty_database = \<lparr>transactions = [], transaction_links = [], reserved = False\<rparr>"

text \<open>
  \<^verbatim>\<open>INSERT OR REPLACE\<close>: the row with the same primary key is deleted, the new row is
  inserted.
\<close>

definition replace_row :: "row \<Rightarrow> row list \<Rightarrow> row list" where
  "replace_row r rows = filter (\<lambda>r'. col_id r' \<noteq> col_id r) rows @ [r]"

definition replace_link :: "link \<Rightarrow> link list \<Rightarrow> link list" where
  "replace_link l links =
     filter (\<lambda>l'. \<not> (parent_id l' = parent_id l \<and> child_id l' = child_id l)) links @ [l]"

text \<open>The tuple of values bound to the statement of \<^verbatim>\<open>save_transaction\<close>.\<close>

definition row_values :: "Transaction \<Rightarrow> error + row" where
  "row_values transaction =
     (case json_dumps (raw_data transaction) of
        Inl e \<Rightarrow> Inl e
      | Inr raw \<Rightarrow>
     (case json_dumps (related_transactions transaction) of
        Inl e \<Rightarrow> Inl e
      | Inr rel \<Rightarrow>
          Inr \<lparr>col_id = tx_id transaction,
               col_timestamp = isoformat (timestamp transaction),
               col_transaction_type = TransactionType_value (transaction_type transaction),
               col_source = TransactionSource_value (source transaction),
               col_amount = amount transaction,
               col_currency = currency transaction,
               col_fee = fee transaction,
               col_fee_currency = fee_currency transaction,
               col_status = status transaction,
               col_notes = tx_notes transaction,
               col_raw_data = raw,
               col_related_transactions = rel\<rparr>))"

text \<open>
  \<^verbatim>\<open>save_transaction\<close>: a connection of its own, the statement, the commit. Whatever is
  raised inside \<^verbatim>\<open>try\<close> is caught and the method returns \<^verbatim>\<open>False\<close>.
\<close>

definition save_transaction :: "database \<Rightarrow> Transaction \<Rightarrow> database \<times> bool" where
  "save_transaction db transaction =
     (case row_values transaction of
        Inl e \<Rightarrow> (db, False)
      | Inr r \<Rightarrow>
          if reserved db then (db, False)
          else (db\<lparr>transactions := replace_row r (transactions db)\<rparr>, True))"

text \<open>
  \<^verbatim>\<open>get_transaction\<close>: \<^verbatim>\<open>fetchone\<close> of the rows with this id, \<^verbatim>\<open>None\<close> when there is
  none; no \<^verbatim>\<open>try\<close> surrounds the decoding.
\<close>

definition decode_row :: "row \<Rightarrow> error + Transaction" where
  "decode_row data =
     (case json_loads (col_raw_data data) of
        Inl e \<Rightarrow> Inl e
      | Inr raw \<Rightarrow>
     (case json_loads (col_related_transactions data) of
        Inl e \<Rightarrow> Inl e
      | Inr rel \<Rightarrow> from_dict data raw rel))"

definition get_transaction :: "database \<Rightarrow> string \<Rightarrow> error + Transaction option" where
  "get_transaction db transaction_id =
     (case find (\<lambda>r. col_id r = transaction_id) (transactions db) of
        None \<Rightarrow> Inr None
      | Some data \<Rightarrow>
          (case decode_row data of Inl e \<Rightarrow> Inl e | Inr t \<Rightarrow> Inr (Some t)))"

text \<open>
  \<^verbatim>\<open>get_all_transactions\<close>: \<^verbatim>\<open>ORDER BY timestamp DESC\<close> sorts the text cells, which
  SQLite compares byte by byte; then every row is decoded.
\<close>

fun decode_rows :: "row list \<Rightarrow> error + Transaction list" where
  "decode_rows [] = Inr []"
| "decode_rows (data # rows) =
     (case decode_row data of
        Inl e \<Rightarrow> Inl e
      | Inr t \<Rightarrow> (case decode_rows rows of Inl e \<Rightarrow> Inl e | Inr ts \<Rightarrow> Inr (t # ts)))"

definition order_by_timestamp_desc :: "row list \<Rightarrow> row list" where
  "order_by_timestamp_desc rows = rev (sort_key col_timestamp rows)"

definition get_all_transactions :: "database \<Rightarrow> error + Transaction list" where
  "get_all_transactions db = decode_rows (order_by_timestamp_desc (transactions db))"

text \<open>
  \<^verbatim>\<open>link_transactions\<close>. The connection \<open>conn\<close> inserts the link and holds the write
  lock from then on. \<^verbatim>\<open>get_transaction\<close> and \<^verbatim>\<open>save_transaction\<close> open connections of
  their own while \<open>conn\<close> is still uncommitted; the result of \<^verbatim>\<open>save_transaction\<close> is
  not looked at. An exception leaves through \<^verbatim>\<open>except\<close>: the link is rolled back when
  \<open>conn\<close> closes, and the method returns \<^verbatim>\<open>False\<close>.
\<close>

definition link_transactions :: "database \<Rightarrow> string \<Rightarrow> string \<Rightarrow> string \<Rightarrow> database \<times> bool" where
  "link_transactions db parent child rel_type =
     (if reserved db then (db, False)
      else
        let pending = replace_link
              \<lparr>parent_id = parent, child_id = child, relationship_type = rel_type\<rparr>
              (transaction_links db);
            db1 = db\<lparr>reserved := True\<rparr>;
            commit = (\<lambda>d. d\<lparr>transaction_links := pending, reserved := False\<rparr>)
        in
          (case get_transaction db1 parent of
             Inl e \<Rightarrow> (db, False)
           | Inr None \<Rightarrow> (commit db1, True)
           | Inr (Some p) \<Rightarrow>
               (case py_in child (related_transactions p) of
                  Inl e \<Rightarrow> (db, False)
                | Inr True \<Rightarrow> (commit db1, True)
                | Inr False \<Rightarrow>
                    (case py_append (related_transactions p) child of
                       Inl e \<Rightarrow> (db, False)
                     | Inr rel' \<Rightarrow>
                         let (db2, saved) =
                               save_transaction db1 (p\<lparr>related_transactions := rel'\<rparr>)
                         in (commit db2, True)))))"

subsection \<open>Chain traversal\<close>

text \<open>The two \<^verbatim>\<open>SELECT\<close>s of \<^verbatim>\<open>_get_related_transactions\<close>.\<close>

definition child_ids :: "database \<Rightarrow> string \<Rightarrow> string list" where
  "child_ids db transaction_id =
     map child_id (filter (\<lambda>l. parent_id l = transaction_id) (transaction_links db))"

definition parent_ids :: "database \<Rightarrow> string \<Rightarrow> string list" where
  "parent_ids db transaction_id =
     map parent_id (filter (\<lambda>l. child_id l = transaction_id) (transaction_links db))"

definition link_ids :: "database \<Rightarrow> string set" where
  "link_ids db =
     set (map parent_id (transaction_links db)) \<union> set (map child_id (transaction_links db))"

text \<open>
  The \<^verbatim>\<open>for\<close> loop of \<^verbatim>\<open>_get_related_transactions\<close> over the ids still to look at,
  with the lists \<open>chain\<close> and \<open>visited\<close> that the source mutates as the state. The
  recursive call of the method is the inner call on the neighbours of \<open>related_id\<close>;
  the loop goes on with the state that call leaves behind.
\<close>

function related_loop ::
  "database \<Rightarrow> string list \<Rightarrow> Transaction list \<times> string set \<Rightarrow>
   error + Transaction list \<times> string set"
where
  "related_loop db [] state = Inr state"
| "related_loop db (related_id # rest) (chain, visited) =
     (if related_id \<in> visited then related_loop db rest (chain, visited)
      else
        (case get_transaction db related_id of
           Inl e \<Rightarrow> Inl e
         | Inr None \<Rightarrow> related_loop db rest (chain, insert related_id visited)
         | Inr (Some related_tx) \<Rightarrow>
             (case related_loop db (child_ids db related_id @ parent_ids db related_id)
                     (chain @ [related_tx], insert related_id visited) of
                Inl e \<Rightarrow> Inl e
              | Inr state' \<Rightarrow> related_loop db rest state')))"
  by pat_completeness auto

text \<open>
  Termination. The loop after a recursive call runs in the state the call returns, so
  the measure needs one fact about results first: a call only adds to \<open>visited\<close>. Then
  every call either marks an id that was not marked before, of the finitely many ids
  that occur in the link table or in the list at hand, or shortens the list.
\<close>

lemma related_loop_visited_mono:
  "related_loop_dom (db, ids, st) \<Longrightarrow> related_loop db ids st = Inr st' \<Longrightarrow> snd st \<subseteq> snd st'"
proof (induction db ids st arbitrary: st' rule: related_loop.pinduct)
  case (1 db state)
  then show ?case by (simp add: related_loop.psimps)
next
  case (2 db related_id rest chain visited)
  note eq = related_loop.psimps(2) [OF "2.hyps"]
  show ?case
  proof (cases "related_id \<in> visited")
    case True
    with "2.prems" eq have "related_loop db rest (chain, visited) = Inr st'" by simp
    with "2.IH"(1) True show ?thesis by blast
  next
    case nv: False
    show ?thesis
    proof (cases "get_transaction db related_id")
      case (Inl e)
      with "2.prems" eq nv show ?thesis by simp
    next
      case (Inr r)
      show ?thesis
      proof (cases r)
        case None
        with "2.prems" eq nv Inr
        have "related_loop db rest (chain, insert related_id visited) = Inr st'" by simp
        with "2.IH"(2) [OF nv Inr None] have "insert related_id visited \<subseteq> snd st'" by simp
        then show ?thesis by auto
      next
        case (Some t)
        let ?inner = "related_loop db (child_ids db related_id @ parent_ids db related_id)
                        (chain @ [t], insert related_id visited)"
        from "2.prems" eq nv Inr Some obtain mid where
          mid: "?inner = Inr mid" and out: "related_loop db rest mid = Inr st'"
          by (cases ?inner) auto
        from "2.IH"(3) [OF nv Inr Some mid] have "insert related_id visited \<subseteq> snd mid" by simp
        moreover from "2.IH"(4) [OF nv Inr Some mid out] have "snd mid \<subseteq> snd st'" .
        ultimately show ?thesis by auto
      qed
    qed
  qed
qed

lemma card_diff_insert_less:
  "finite A \<Longrightarrow> x \<in> A \<Longrightarrow> x \<notin> V \<Longrightarrow> B \<subseteq> A \<Longrightarrow> insert x V \<subseteq> V' \<Longrightarrow> card (B - V') < card (A - V)"
  by (rule psubset_card_mono) auto

termination related_loop
proof (relation "measures
         [\<lambda>(db, ids, (chain, visited)). card ((link_ids db \<union> set ids) - visited),
          \<lambda>(db, ids, state). length ids]", goal_cases)
  case 1
  show ?case by simp
next
  case (2 db related_id rest chain visited)
  have "card ((link_ids db \<union> set rest) - visited) \<le> card ((link_ids db \<union> set (related_id # rest)) - visited)"
    by (rule card_mono) (auto simp: link_ids_def)
  then show ?case by auto
next
  case (3 db related_id rest chain visited r)
  have "card ((link_ids db \<union> set rest) - insert related_id visited)
          < card ((link_ids db \<union> set (related_id # rest)) - visited)"
    using 3 by (intro card_diff_insert_less) (auto simp: link_ids_def)
  then show ?case by simp
next
  case (4 db related_id rest chain visited r t)
  have "set (child_ids db related_id @ parent_ids db related_id) \<subseteq> link_ids db"
    by (auto simp: child_ids_def parent_ids_def link_ids_def)
  then have "card ((link_ids db \<union> set (child_ids db related_id @ parent_ids db related_id)) - insert related_id visited)
          < card ((link_ids db \<union> set (related_id # rest)) - visited)"
    using 4 by (intro card_diff_insert_less) (auto simp: link_ids_def)
  then show ?case by simp
next
  case (5 db related_id rest chain visited r t state')
  from related_loop_visited_mono [OF 5(5) 5(4)]
  have "insert related_id visited \<subseteq> snd state'" by simp
  then have "card ((link_ids db \<union> set rest) - snd state')
          < card ((link_ids db \<union> set (related_id # rest)) - visited)"
    using 5 by (intro card_diff_insert_less) (auto simp: link_ids_def)
  then show ?case by (cases state') simp
qed


definition get_related_transactions ::
  "database \<Rightarrow> string \<Rightarrow> Transaction list \<times> string set \<Rightarrow>
   error + Transaction list \<times> string set"
where
  "get_related_transactions db transaction_id state =
     related_loop db (child_ids db transaction_id @ parent_ids db transaction_id) state"

text \<open>
  \<^verbatim>\<open>chain.sort(key=lambda t: t.timestamp)\<close>: a stable sort that compares keys with
  \<open><\<close> only. Each element, from the left, is put behind the elements that are not
  greater. A comparison that raises ends the sort; on a list that holds a naive and an
  aware timestamp some comparison always does.
\<close>

fun insort_timestamp :: "Transaction \<Rightarrow> Transaction list \<Rightarrow> error + Transaction list" where
  "insort_timestamp x [] = Inr [x]"
| "insort_timestamp x (y # ys) =
     (case datetime_lt (timestamp x) (timestamp y) of
        Inl e \<Rightarrow> Inl e
      | Inr True \<Rightarrow> Inr (x # y # ys)
      | Inr False \<Rightarrow>
          (case insort_timestamp x ys of Inl e \<Rightarrow> Inl e | Inr zs \<Rightarrow> Inr (y # zs)))"

fun sort_into :: "Transaction list \<Rightarrow> Transaction list \<Rightarrow> error + Transaction list" where
  "sort_into done [] = Inr done"
| "sort_into done (x # xs) =
     (case insort_timestamp x done of Inl e \<Rightarrow> Inl e | Inr done' \<Rightarrow> sort_into done' xs)"

definition sort_by_timestamp :: "Transaction list \<Rightarrow> error + Transaction list" where
  "sort_by_timestamp chain = sort_into [] chain"

definition get_transaction_chain :: "database \<Rightarrow> string \<Rightarrow> error + Transaction list" where
  "get_transaction_chain db transaction_id =
     (case get_transaction db transaction_id of
        Inl e \<Rightarrow> Inl e
      | Inr None \<Rightarrow> Inr []
      | Inr (Some transaction) \<Rightarrow>
          (case get_related_transactions db transaction_id ([transaction], {transaction_id}) of
             Inl e \<Rightarrow> Inl e
           | Inr (chain, visited) \<Rightarrow> sort_by_timestamp chain))"

subsection \<open>Notions used in the statements\<close>

text \<open>
  Python values that JSON has a form of its own for: no tuple and no \<^verbatim>\<open>bytes\<close>
  anywhere inside.
\<close>

fun json_native :: "pyval \<Rightarrow> bool" where
  "json_native (PList xs) = list_all json_native xs"
| "json_native (PTuple xs) = False"
| "json_native (PDict kvs) = list_all (\<lambda>kv. json_native (snd kv)) kvs"
| "json_native (PBytes b) = False"
| "json_native v = True"

text \<open>An id is stored when the table \<^verbatim>\<open>transactions\<close> has a row under it.\<close>

definition stored :: "database \<Rightarrow> string \<Rightarrow> bool" where
  "stored db x = (x \<in> set (map col_id (transactions db)))"

text \<open>
  A store whose rows all decode: no cell makes \<^verbatim>\<open>json.loads\<close> or \<open>from_dict\<close>
  raise. Rows written by \<open>save_transaction\<close> are of this kind.
\<close>

definition decodes :: "row \<Rightarrow> bool" where
  "decodes r = (case decode_row r of Inl e \<Rightarrow> False | Inr t \<Rightarrow> True)"

definition rows_decode :: "database \<Rightarrow> bool" where
  "rows_decode db = list_all decodes (transactions db)"

text \<open>
  A store whose timestamps Python can compare with each other: all naive, or all aware.
\<close>

definition row_naive :: "row \<Rightarrow> bool" where
  "row_naive r = (case decode_row r of Inl e \<Rightarrow> True | Inr t \<Rightarrow> tzinfo (timestamp t) = None)"

definition row_aware :: "row \<Rightarrow> bool" where
  "row_aware r = (case decode_row r of Inl e \<Rightarrow> True | Inr t \<Rightarrow> tzinfo (timestamp t) \<noteq> None)"

definition timestamps_comparable :: "database \<Rightarrow> bool" where
  "timestamps_comparable db =
     (list_all row_naive (transactions db) \<or> list_all row_aware (transactions db))"

text \<open>\<open>not_later a b\<close>: the transaction \<open>b\<close> is not earlier than \<open>a\<close>.\<close>

definition not_later :: "Transaction \<Rightarrow> Transaction \<Rightarrow> bool" where
  "not_later a b = (datetime_lt (timestamp b) (timestamp a) = Inr False)"

text \<open>
  The link table as an undirected graph on ids, and the same graph on the stored ids
  only.
\<close>

definition linked :: "database \<Rightarrow> (string \<times> string) set" where
  "linked db =
     {(a, b). \<exists>l \<in> set (transaction_links db).
        (parent_id l = a \<and> child_id l = b) \<or> (child_id l = a \<and> parent_id l = b)}"

definition linked_stored :: "database \<Rightarrow> (string \<times> string) set" where
  "linked_stored db = {(a, b). (a, b) \<in> linked db \<and> stored db a \<and> stored db b}"

text \<open>
  The steps the traversal takes: from a stored id to each id the two \<^verbatim>\<open>SELECT\<close>s
  return for it.
\<close>

definition neighbour_ids :: "database \<Rightarrow> string \<Rightarrow> string list" where
  "neighbour_ids db x = child_ids db x @ parent_ids db x"

definition expand :: "database \<Rightarrow> (string \<times> string) set" where
  "expand db = {(a, b). stored db a \<and> b \<in> set (neighbour_ids db a)}"

text \<open>
  What a run of the loop over \<open>ids\<close> from the state \<open>s\<close> to the state \<open>s'\<close> has
  done: it marked every id of the list; it appended one transaction, the stored one,
  for each stored id it marked; it looked at all neighbours of every stored id it
  marked; and every id it marked is reached from the list by steps of the traversal.
\<close>

definition loop_post ::
  "database \<Rightarrow> string list \<Rightarrow> Transaction list \<times> string set \<Rightarrow>
   Transaction list \<times> string set \<Rightarrow> bool"
where
  "loop_post db ids s s' =
     (snd s \<subseteq> snd s' \<and> set ids \<subseteq> snd s' \<and>
      (\<exists>new. fst s' = fst s @ new \<and> distinct (map tx_id new) \<and>
             set (map tx_id new) = {x \<in> snd s' - snd s. stored db x} \<and>
             (\<forall>t \<in> set new. get_transaction db (tx_id t) = Inr (Some t))) \<and>
      (\<forall>x \<in> snd s' - snd s. stored db x \<longrightarrow> set (neighbour_ids db x) \<subseteq> snd s') \<and>
      (\<forall>y \<in> snd s' - snd s. \<exists>x \<in> set ids. (x, y) \<in> (expand db)\<^sup>*))"

text \<open>
  Two stores that hold the same link table and, row by row, the same cells in every
  column but \<^verbatim>\<open>related_transactions\<close>; a store whose \<^verbatim>\<open>related_transactions\<close> cells
  are all JSON text, as \<open>save_transaction\<close> writes them; and a record without its
  \<^verbatim>\<open>related_transactions\<close> field.
\<close>

definition forget_related :: "row \<Rightarrow> row" where
  "forget_related r = r\<lparr>col_related_transactions := JsonText JNull\<rparr>"

definition agree_except_related :: "database \<Rightarrow> database \<Rightarrow> bool" where
  "agree_except_related db db' =
     (transaction_links db = transaction_links db' \<and>
      map forget_related (transactions db) = map forget_related (transactions db'))"

fun is_json :: "text_cell \<Rightarrow> bool" where
  "is_json (JsonText j) = True"
| "is_json (OtherText s) = False"

definition related_json :: "database \<Rightarrow> bool" where
  "related_json db = list_all (\<lambda>r. is_json (col_related_transactions r)) (transactions db)"

definition erase_related :: "Transaction \<Rightarrow> Transaction" where
  "erase_related t = t\<lparr>related_transactions := PNone\<rparr>"

text \<open>
  The relations of the simulation: rows that differ in the \<^verbatim>\<open>related_transactions\<close>
  cell only, both cells being JSON text or neither, and records that differ in the
  \<^verbatim>\<open>related_transactions\<close> field only.
\<close>

definition same_but_related_row :: "row \<Rightarrow> row \<Rightarrow> bool" where
  "same_but_related_row r r' =
     (forget_related r = forget_related r' \<and>
      is_json (col_related_transactions r) = is_json (col_related_transactions r'))"

definition same_but_related :: "database \<Rightarrow> database \<Rightarrow> bool" where
  "same_but_related db db' =
     (transaction_links db = transaction_links db' \<and>
      list_all2 same_but_related_row (transactions db) (transactions db'))"

definition alike :: "Transaction \<Rightarrow> Transaction \<Rightarrow> bool" where
  "alike t t' = (erase_related t = erase_related t')"

text \<open>
  The ids that \<open>get_transaction_chain\<close> looks up on a run in which no lookup raises:
  the start id and, from every stored id reached, the ids the two \<^verbatim>\<open>SELECT\<close>s return
  for it. The rows under these ids are the rows the operation reads; they all decode,
  and their timestamps are all naive or all aware.
\<close>

definition read_by_chain :: "database \<Rightarrow> string \<Rightarrow> string set" where
  "read_by_chain db start = (expand db)\<^sup>* `` {start}"

definition chain_rows_decode :: "database \<Rightarrow> string \<Rightarrow> bool" where
  "chain_rows_decode db start =
     (\<forall>x \<in> read_by_chain db start. \<exists>found. get_transaction db x = Inr found)"

definition chain_comparable :: "database \<Rightarrow> string \<Rightarrow> bool" where
  "chain_comparable db start =
     ((\<forall>x \<in> read_by_chain db start. \<forall>t. get_transaction db x = Inr (Some t) \<longrightarrow>
          tzinfo (timestamp t) = None) \<or>
      (\<forall>x \<in> read_by_chain db start. \<forall>t. get_transaction db x = Inr (Some t) \<longrightarrow>
          tzinfo (timestamp t) \<noteq> None))"



text \<open>
  A row as \<open>save_transaction\<close> writes it for a timestamp of the zone \<open>tz\<close> (\<open>None\<close>: a
  naive timestamp): the row decodes, its timestamp cell is the text \<open>isoformat\<close> gives
  for the decoded timestamp, and that timestamp has the offset \<open>tz\<close>.
\<close>

definition written_in_zone :: "int option \<Rightarrow> row \<Rightarrow> bool" where
  "written_in_zone tz r =
     (case decode_row r of
        Inl e \<Rightarrow> False
      | Inr t \<Rightarrow> col_timestamp r = isoformat (timestamp t) \<and> tzinfo (timestamp t) = tz)"

subsection \<open>Example values\<close>

definition ex_datetime :: "nat \<Rightarrow> datetime" where
  "ex_datetime h =
     \<lparr>year = 2024, month = 1, day = 1, hour = h, minute = 0, second = 0, microsecond = 0,
      tzinfo = None\<rparr>"

definition ex_tx :: "string \<Rightarrow> datetime \<Rightarrow> Transaction" where
  "ex_tx i ts =
     \<lparr>tx_id = i, timestamp = ts, transaction_type = TRANSFER, source = MANUAL,
      amount = 1, currency = ''ETH'', fee = 0, fee_currency = ''ETH'', status = ''completed'',
      tx_notes = [], raw_data = PDict [], related_transactions = PList []\<rparr>"

definition ex_row :: "string \<Rightarrow> datetime \<Rightarrow> row" where
  "ex_row i ts =
     \<lparr>col_id = i, col_timestamp = isoformat ts, col_transaction_type = ''transfer'',
      col_source = ''manual'', col_amount = 1, col_currency = ''ETH'', col_fee = 0,
      col_fee_currency = ''ETH'', col_status = ''completed'', col_notes = [],
      col_raw_data = JsonText (JObj []), col_related_transactions = JsonText (JArr [])\<rparr>"

definition ex_link :: "string \<Rightarrow> string \<Rightarrow> link" where
  "ex_link p c = \<lparr>parent_id = p, child_id = c, relationship_type = ''continuation''\<rparr>"

definition ex_store :: "row list \<Rightarrow> link list \<Rightarrow> database" where
  "ex_store rows links = \<lparr>transactions = rows, transaction_links = links, reserved = False\<rparr>"

text \<open>The links \<open>A \<rightarrow> B\<close> and \<open>B \<rightarrow> A\<close>.\<close>

definition ex_cycle :: database where
  "ex_cycle =
     ex_store [ex_row ''A'' (ex_datetime 1), ex_row ''B'' (ex_datetime 2)]
       [ex_link ''A'' ''B'', ex_link ''B'' ''A'']"

text \<open>The example of the specification: \<open>A\<close>, \<open>B\<close>, \<open>C\<close> at hours 1, 3, 2 and the links \<open>A \<rightarrow> B\<close>, \<open>A \<rightarrow> C\<close>.\<close>

definition ex_fan :: database where
  "ex_fan =
     ex_store [ex_row ''A'' (ex_datetime 1), ex_row ''B'' (ex_datetime 3), ex_row ''C'' (ex_datetime 2)]
       [ex_link ''A'' ''B'', ex_link ''A'' ''C'']"

text \<open>\<open>A\<close> and \<open>C\<close> are stored, \<open>D\<close> is not; the links are \<open>A \<rightarrow> D\<close> and \<open>D \<rightarrow> C\<close>.\<close>

definition ex_dangling :: database where
  "ex_dangling =
     ex_store [ex_row ''A'' (ex_datetime 1), ex_row ''C'' (ex_datetime 2)]
       [ex_link ''A'' ''D'', ex_link ''D'' ''C'']"

text \<open>A naive and an aware timestamp, as the two adapters write them, and the link \<open>A \<rightarrow> B\<close>.\<close>

definition ex_mixed :: database where
  "ex_mixed =
     ex_store [ex_row ''A'' (ex_datetime 1), ex_row ''B'' ((ex_datetime 2)\<lparr>tzinfo := Some 0\<rparr>)]
       [ex_link ''A'' ''B'']"

text \<open>A store with the one transaction \<open>A\<close>, and a second version of \<open>A\<close>.\<close>

definition ex_single :: database where
  "ex_single = ex_store [ex_row ''A'' (ex_datetime 1)] []"

definition ex_second :: Transaction where
  "ex_second = (ex_tx ''A'' (ex_datetime 2))\<lparr>amount := 2, status := ''failed''\<rparr>"

text \<open>
  Transactions whose \<^verbatim>\<open>raw_data\<close> holds JSON values only, a tuple, and a
  \<^verbatim>\<open>bytes\<close> value; the first has an aware timestamp with microseconds.
\<close>

definition ex_native :: Transaction where
  "ex_native =
     (ex_tx ''A'' ((ex_datetime 5)\<lparr>microsecond := 5, tzinfo := Some (- 330)\<rparr>))
       \<lparr>raw_data := PDict [(''k'', PList [PInt 1, PStr ''x'', PNone])],
        related_transactions := PList [PStr ''B'']\<rparr>"

definition ex_tuple :: Transaction where
  "ex_tuple = (ex_tx ''A'' (ex_datetime 1))\<lparr>raw_data := PDict [(''k'', PTuple [PInt 1, PInt 2])]\<rparr>"

definition ex_bytes :: Transaction where
  "ex_bytes = (ex_tx ''A'' (ex_datetime 1))\<lparr>raw_data := PDict [(''input'', PBytes ''0x'')]\<rparr>"

text \<open>A row whose \<^verbatim>\<open>raw_data\<close> cell is not JSON.\<close>

definition ex_corrupt :: database where
  "ex_corrupt = ex_store [(ex_row ''A'' (ex_datetime 1))\<lparr>col_raw_data := OtherText ''{''\<rparr>] []"

text \<open>The store \<open>ex_cycle\<close> with the id \<open>B\<close> in the \<^verbatim>\<open>related_transactions\<close> cell of \<open>A\<close>.\<close>

definition ex_cached :: database where
  "ex_cached =
     ex_store [(ex_row ''A'' (ex_datetime 1))\<lparr>col_related_transactions := JsonText (JArr [JStr ''B''])\<rparr>,
               ex_row ''B'' (ex_datetime 2)]
       [ex_link ''A'' ''B'', ex_link ''B'' ''A'']"

text \<open>
  The rows \<open>A\<close> and \<open>B\<close> with the link \<open>A \<rightarrow> B\<close>, and a row \<open>C\<close> that no link touches and
  whose \<^verbatim>\<open>raw_data\<close> cell is not JSON; and a row whose \<^verbatim>\<open>related_transactions\<close> cell
  is the JSON text \<^verbatim>\<open>null\<close>.
\<close>

definition ex_unread :: database where
  "ex_unread =
     ex_store [ex_row ''A'' (ex_datetime 1), ex_row ''B'' (ex_datetime 2),
               (ex_row ''C'' (ex_datetime 3))\<lparr>col_raw_data := OtherText ''{''\<rparr>]
       [ex_link ''A'' ''B'']"

definition ex_null :: database where
  "ex_null =
     ex_store [(ex_row ''A'' (ex_datetime 1))\<lparr>col_related_transactions := JsonText JNull\<rparr>] []"


section \<open>Properties\<close>

subsection \<open>Writing and reading a timestamp\<close>

lemma digit_val_digit_char: "n < 10 \<Longrightarrow> digit_val (digit_char n) = Some n"
proof -
  assume "n < 10"
  then have "n \<in> set [0..<10]" by simp
  moreover have "list_all (\<lambda>k. digit_val (digit_char k) = Some k) [0..<10]"
    by code_simp
  ultimately show ?thesis unfolding list_all_iff by blast
qed

lemma read_digits_zpad:
  "n < 10 ^ k \<Longrightarrow> read_digits k (zpad k n @ s) = Some (n, s)"
proof (induction k arbitrary: n)
  case 0
  then show ?case by simp
next
  case (Suc k)
  from Suc.prems have d: "n div 10 ^ k < 10"
    by (simp add: less_mult_imp_div_less mult.commute)
  have m: "n mod 10 ^ k < 10 ^ k" by simp
  from Suc.IH [OF m] digit_val_digit_char [OF d] show ?case by (simp add: div_mult_mod_eq)
qed

lemma read_fraction_format:
  assumes "us < 1000000" and "s = [] \<or> hd s = CHR ''+'' \<or> hd s = CHR ''-''"
  shows "read_fraction (format_fraction us @ s) = Some (us, s)"
proof (cases "us = 0")
  case True
  with assms(2) show ?thesis by (cases s) (auto simp: format_fraction_def)
next
  case False
  from assms(1) have "us < 10 ^ 6" by simp
  from read_digits_zpad [OF this] False show ?thesis by (simp add: format_fraction_def)
qed

lemma format_offset_head:
  "format_offset tz = [] \<or> hd (format_offset tz) = CHR ''+'' \<or> hd (format_offset tz) = CHR ''-''"
  by (cases tz) (auto simp: format_offset_def)

lemma read_offset_format:
  assumes "case tz of None \<Rightarrow> True | Some off \<Rightarrow> - 1440 < off \<and> off < 1440"
  shows "read_offset (format_offset tz) = Some tz"
proof (cases tz)
  case None
  then show ?thesis by (simp add: format_offset_def)
next
  case (Some off)
  with assms have b: "- 1440 < off" "off < 1440" by simp_all
  let ?a = "nat \<bar>off\<bar>"
  from b have "?a div 60 < 10 ^ 2" by simp
  then have h: "\<And>s. read_digits 2 (zpad 2 (?a div 60) @ s) = Some (?a div 60, s)"
    by (rule read_digits_zpad)
  have "?a mod 60 < 10 ^ 2" by (simp add: less_trans [OF mod_less_divisor])
  then have m: "read_digits 2 (zpad 2 (?a mod 60)) = Some (?a mod 60, [])"
    using read_digits_zpad [of "?a mod 60" 2 "[]"] by simp
  have v: "int (?a div 60 * 60 + ?a mod 60) = \<bar>off\<bar>" by simp
  show ?thesis
  proof (cases "off < 0")
    case True
    with Some h m v show ?thesis by (simp add: format_offset_def)
  next
    case False
    with Some h m v show ?thesis by (simp add: format_offset_def)
  qed
qed

lemma parse_isoformat_isoformat:
  assumes "valid_datetime d"
  shows "parse_isoformat (isoformat d) = Some d"
proof -
  from assms have y: "year d < 10 ^ 4" and mo: "month d < 10 ^ 2" and dd: "day d < 10 ^ 2"
    and h: "hour d < 10 ^ 2" and mi: "minute d < 10 ^ 2" and se: "second d < 10 ^ 2"
    and us: "microsecond d < 1000000"
    and tz: "case tzinfo d of None \<Rightarrow> True | Some off \<Rightarrow> - 1440 < off \<and> off < 1440"
    by (auto simp: valid_datetime_def days_in_month_def split: if_splits)
  note rd = read_digits_zpad [OF y] read_digits_zpad [OF mo] read_digits_zpad [OF dd]
    read_digits_zpad [OF h] read_digits_zpad [OF mi] read_digits_zpad [OF se]
  show ?thesis
    unfolding parse_isoformat_def isoformat_def
    by (simp add: rd read_fraction_format [OF us format_offset_head] read_offset_format [OF tz])
qed

lemma fromisoformat_isoformat:
  "valid_datetime d \<Longrightarrow> fromisoformat (isoformat d) = Inr d"
  by (simp add: fromisoformat_def parse_isoformat_isoformat)

subsection \<open>Writing and reading the other cells\<close>

lemma TransactionType_round_trip: "TransactionType_of_value (TransactionType_value ty) = Inr ty"
  by (cases ty) (simp_all add: TransactionType_of_value_def)

lemma TransactionSource_round_trip: "TransactionSource_of_value (TransactionSource_value src) = Inr src"
  by (cases src) (simp_all add: TransactionSource_of_value_def)

lemma those_map_inverse:
  assumes "\<forall>x \<in> set xs. map_option g (f x) = Some x"
  shows "map_option (map g) (those (map f xs)) = Some xs"
  using assms
proof (induction xs)
  case Nil
  show ?case by simp
next
  case (Cons x xs)
  from Cons.prems obtain y where y: "f x = Some y" "g y = x" by auto
  from Cons.prems have "map_option (map g) (those (map f xs)) = Some xs"
    by (intro Cons.IH) simp
  then obtain ys where ys: "those (map f xs) = Some ys" "map g ys = xs" by auto
  with y show ?case by simp
qed

lemma json_native_round_trip:
  "json_native v \<Longrightarrow> map_option of_json (to_json v) = Some v"
proof (induction v)
  case (PList xs)
  then have "\<forall>x \<in> set xs. map_option of_json (to_json x) = Some x"
    by (simp add: list_all_iff)
  from those_map_inverse [OF this] show ?case
    by (auto simp: map_option_case split: option.splits)
next
  case (PDict kvs)
  have "\<forall>kv \<in> set kvs. map_option (\<lambda>kv. (fst kv, of_json (snd kv)))
          (map_option (Pair (fst kv)) (to_json (snd kv))) = Some kv"
  proof
    fix kv assume kv: "kv \<in> set kvs"
    with PDict.prems have n: "json_native (snd kv)" by (simp add: list_all_iff)
    have "snd kv \<in> Basic_BNFs.snds kv" by (cases kv) simp
    with PDict.IH kv n have "map_option of_json (to_json (snd kv)) = Some (snd kv)" by blast
    then show "map_option (\<lambda>kv. (fst kv, of_json (snd kv)))
          (map_option (Pair (fst kv)) (to_json (snd kv))) = Some kv"
      by (cases kv) auto
  qed
  from those_map_inverse [OF this] show ?case
    by (auto simp: map_option_case split: option.splits)
qed simp_all

lemma decode_row_row_values:
  assumes "valid_datetime (timestamp t)"
    and "to_json (raw_data t) = Some j1" and "to_json (related_transactions t) = Some j2"
  shows "\<exists>r. row_values t = Inr r \<and> col_id r = tx_id t \<and>
           decode_row r = Inr (t\<lparr>raw_data := of_json j1, related_transactions := of_json j2\<rparr>)"
  using assms
  by (simp add: row_values_def json_dumps_def decode_row_def from_dict_def
      fromisoformat_isoformat TransactionType_round_trip TransactionSource_round_trip)

subsection \<open>Rows and lookups\<close>

lemma decode_row_tx_id: "decode_row r = Inr t \<Longrightarrow> tx_id t = col_id r"
  by (auto simp: decode_row_def from_dict_def split: sum.splits)

lemma find_col_id_Some:
  "find (\<lambda>r. col_id r = x) rows = Some r \<Longrightarrow> r \<in> set rows \<and> col_id r = x"
  by (induction rows) (auto split: if_splits)

lemma find_col_id_None_iff:
  "find (\<lambda>r. col_id r = x) rows = None \<longleftrightarrow> x \<notin> col_id ` set rows"
  by (induction rows) auto

lemma get_transaction_not_stored:
  "\<not> stored db x \<Longrightarrow> get_transaction db x = Inr None"
  by (simp add: get_transaction_def stored_def find_col_id_None_iff [symmetric])

lemma get_transaction_stored:
  assumes "rows_decode db" and "stored db x"
  shows "\<exists>t. get_transaction db x = Inr (Some t) \<and> tx_id t = x"
proof -
  from assms(2) obtain r where f: "find (\<lambda>r. col_id r = x) (transactions db) = Some r"
    using find_col_id_None_iff [of x "transactions db"] by (auto simp: stored_def)
  then have r: "r \<in> set (transactions db)" "col_id r = x"
    using find_col_id_Some by blast+
  from assms(1) r(1) have "decodes r"
    by (simp add: rows_decode_def list_all_iff)
  then obtain t where t: "decode_row r = Inr t"
    by (cases "decode_row r") (auto simp: decodes_def)
  from decode_row_tx_id [OF t] f r t show ?thesis
    by (simp add: get_transaction_def)
qed

lemma get_transaction_Some_stored:
  assumes "get_transaction db x = Inr (Some t)"
  shows "stored db x \<and> tx_id t = x"
proof -
  from assms obtain r where f: "find (\<lambda>r. col_id r = x) (transactions db) = Some r"
    and t: "decode_row r = Inr t"
    by (auto simp: get_transaction_def split: option.splits sum.splits)
  from find_col_id_Some [OF f] have "r \<in> set (transactions db)" "col_id r = x" by simp_all
  then have "x \<in> col_id ` set (transactions db)" by blast
  with decode_row_tx_id [OF t] \<open>col_id r = x\<close> show ?thesis
    by (simp add: stored_def)
qed

subsection \<open>Saving\<close>

lemma find_replace_row:
  "find (\<lambda>x. col_id x = col_id r) (replace_row r rows) = Some r"
  by (induction rows) (auto simp: replace_row_def)

lemma filter_replace_row_same:
  "filter (\<lambda>x. col_id x = col_id r) (replace_row r rows) = [r]"
  by (induction rows) (auto simp: replace_row_def)

lemma filter_replace_row_other:
  "filter (\<lambda>x. col_id x \<noteq> col_id r) (replace_row r rows) =
   filter (\<lambda>x. col_id x \<noteq> col_id r) rows"
  by (induction rows) (auto simp: replace_row_def)

lemma row_values_col_id: "row_values t = Inr r \<Longrightarrow> col_id r = tx_id t"
  by (auto simp: row_values_def split: sum.splits)

lemma save_transaction_True:
  assumes "save_transaction db t = (db', True)"
  obtains r where "row_values t = Inr r" and "\<not> reserved db"
    and "db' = db\<lparr>transactions := replace_row r (transactions db)\<rparr>"
  using assms by (auto simp: save_transaction_def split: sum.splits if_splits)

lemma get_after_replace:
  assumes "col_id r = i"
  shows "get_transaction (db\<lparr>transactions := replace_row r (transactions db)\<rparr>) i =
         (case decode_row r of Inl e \<Rightarrow> Inl e | Inr t' \<Rightarrow> Inr (Some t'))"
  using find_replace_row [of r "transactions db"] assms by (simp add: get_transaction_def)

lemma get_after_save:
  assumes "\<not> reserved db" and "valid_datetime (timestamp t)"
    and "to_json (raw_data t) = Some j1" and "to_json (related_transactions t) = Some j2"
  shows "\<exists>db'. save_transaction db t = (db', True) \<and>
           get_transaction db' (tx_id t) =
             Inr (Some (t\<lparr>raw_data := of_json j1, related_transactions := of_json j2\<rparr>))"
proof -
  from decode_row_row_values [OF assms(2,3,4)] obtain r where
    r: "row_values t = Inr r" "col_id r = tx_id t"
       "decode_row r = Inr (t\<lparr>raw_data := of_json j1, related_transactions := of_json j2\<rparr>)"
    by blast
  from r(1) assms(1)
  have "save_transaction db t = (db\<lparr>transactions := replace_row r (transactions db)\<rparr>, True)"
    by (simp add: save_transaction_def)
  with get_after_replace [OF r(2), of db] r(3) show ?thesis by simp
qed

lemma get_transaction_reserved:
  "get_transaction (db\<lparr>reserved := b\<rparr>) i = get_transaction db i"
  by (simp add: get_transaction_def)

lemma link_transactions_keeps_rows:
  "transactions (fst (link_transactions db parent child rel_type)) = transactions db"
  by (auto simp: link_transactions_def Let_def save_transaction_def
      split: sum.splits option.splits bool.splits prod.splits if_splits)

lemma save_transaction_locked: "reserved db \<Longrightarrow> save_transaction db t = (db, False)"
  by (simp add: save_transaction_def split: sum.splits)

subsection \<open>The traversal loop\<close>

lemma loop_postI:
  assumes "V \<subseteq> V'" and "set ids \<subseteq> V'"
    and "c' = c @ new" and "distinct (map tx_id new)"
    and "set (map tx_id new) = {x \<in> V' - V. stored db x}"
    and "\<forall>t \<in> set new. get_transaction db (tx_id t) = Inr (Some t)"
    and "\<forall>x \<in> V' - V. stored db x \<longrightarrow> set (neighbour_ids db x) \<subseteq> V'"
    and "\<forall>y \<in> V' - V. \<exists>x \<in> set ids. (x, y) \<in> (expand db)\<^sup>*"
  shows "loop_post db ids (c, V) (c', V')"
  unfolding loop_post_def fst_conv snd_conv
  using assms by blast

lemma loop_postE:
  assumes "loop_post db ids (c, V) (c', V')"
  obtains new where "V \<subseteq> V'" and "set ids \<subseteq> V'"
    and "c' = c @ new" and "distinct (map tx_id new)"
    and "set (map tx_id new) = {x \<in> V' - V. stored db x}"
    and "\<forall>t \<in> set new. get_transaction db (tx_id t) = Inr (Some t)"
    and "\<forall>x \<in> V' - V. stored db x \<longrightarrow> set (neighbour_ids db x) \<subseteq> V'"
    and "\<forall>y \<in> V' - V. \<exists>x \<in> set ids. (x, y) \<in> (expand db)\<^sup>*"
  using assms unfolding loop_post_def fst_conv snd_conv by blast

lemma loop_post_Nil: "loop_post db [] s s"
  by (simp add: loop_post_def)

lemma loop_post_skip:
  assumes "r \<in> V" and "loop_post db rest (c, V) (c', V')"
  shows "loop_post db (r # rest) (c, V) (c', V')"
proof -
  from assms(2) obtain new where
    sub: "V \<subseteq> V'" "set rest \<subseteq> V'" and
    new: "c' = c @ new" "distinct (map tx_id new)"
         "set (map tx_id new) = {x \<in> V' - V. stored db x}"
         "\<forall>t \<in> set new. get_transaction db (tx_id t) = Inr (Some t)" and
    clo: "\<forall>x \<in> V' - V. stored db x \<longrightarrow> set (neighbour_ids db x) \<subseteq> V'" and
    snd: "\<forall>y \<in> V' - V. \<exists>x \<in> set rest. (x, y) \<in> (expand db)\<^sup>*"
    by (rule loop_postE)
  from sub assms(1) have "set (r # rest) \<subseteq> V'" by auto
  moreover from snd have "\<forall>y \<in> V' - V. \<exists>x \<in> set (r # rest). (x, y) \<in> (expand db)\<^sup>*"
    by auto
  ultimately show ?thesis using sub(1) new clo by (intro loop_postI)
qed

lemma loop_post_dangling:
  assumes "r \<notin> V" and "\<not> stored db r" and "loop_post db rest (c, insert r V) (c', V')"
  shows "loop_post db (r # rest) (c, V) (c', V')"
proof -
  from assms(3) obtain new where
    sub: "insert r V \<subseteq> V'" "set rest \<subseteq> V'" and
    new: "c' = c @ new" "distinct (map tx_id new)"
         "set (map tx_id new) = {x \<in> V' - insert r V. stored db x}"
         "\<forall>t \<in> set new. get_transaction db (tx_id t) = Inr (Some t)" and
    clo: "\<forall>x \<in> V' - insert r V. stored db x \<longrightarrow> set (neighbour_ids db x) \<subseteq> V'" and
    snd: "\<forall>y \<in> V' - insert r V. \<exists>x \<in> set rest. (x, y) \<in> (expand db)\<^sup>*"
    by (rule loop_postE)
  have 1: "V \<subseteq> V'" and 2: "set (r # rest) \<subseteq> V'" using sub by auto
  have "{x \<in> V' - insert r V. stored db x} = {x \<in> V' - V. stored db x}"
    using assms(2) by auto
  with new(3) have 3: "set (map tx_id new) = {x \<in> V' - V. stored db x}" by simp
  have 4: "\<forall>x \<in> V' - V. stored db x \<longrightarrow> set (neighbour_ids db x) \<subseteq> V'"
    using clo assms(2) by auto
  have 5: "\<forall>y \<in> V' - V. \<exists>x \<in> set (r # rest). (x, y) \<in> (expand db)\<^sup>*"
  proof
    fix y assume y: "y \<in> V' - V"
    show "\<exists>x \<in> set (r # rest). (x, y) \<in> (expand db)\<^sup>*"
    proof (cases "y = r")
      case True then show ?thesis by auto
    next
      case False
      with y snd obtain x where "x \<in> set rest" "(x, y) \<in> (expand db)\<^sup>*" by auto
      then show ?thesis by auto
    qed
  qed
  from 1 2 new(1,2) 3 new(4) 4 5 show ?thesis by (rule loop_postI)
qed

lemma loop_post_found:
  assumes nv: "r \<notin> V" and got: "get_transaction db r = Inr (Some t)"
    and inner: "loop_post db (neighbour_ids db r) (c @ [t], insert r V) (c1, V1)"
    and outer: "loop_post db rest (c1, V1) (c', V')"
  shows "loop_post db (r # rest) (c, V) (c', V')"
proof -
  from get_transaction_Some_stored [OF got] have st: "stored db r" and id: "tx_id t = r"
    by simp_all
  from inner obtain new1 where
    sub1: "insert r V \<subseteq> V1" "set (neighbour_ids db r) \<subseteq> V1" and
    new1: "c1 = (c @ [t]) @ new1" "distinct (map tx_id new1)"
         "set (map tx_id new1) = {x \<in> V1 - insert r V. stored db x}"
         "\<forall>t \<in> set new1. get_transaction db (tx_id t) = Inr (Some t)" and
    clo1: "\<forall>x \<in> V1 - insert r V. stored db x \<longrightarrow> set (neighbour_ids db x) \<subseteq> V1" and
    snd1: "\<forall>y \<in> V1 - insert r V. \<exists>x \<in> set (neighbour_ids db r). (x, y) \<in> (expand db)\<^sup>*"
    by (rule loop_postE)
  from outer obtain new2 where
    sub2: "V1 \<subseteq> V'" "set rest \<subseteq> V'" and
    new2: "c' = c1 @ new2" "distinct (map tx_id new2)"
         "set (map tx_id new2) = {x \<in> V' - V1. stored db x}"
         "\<forall>t \<in> set new2. get_transaction db (tx_id t) = Inr (Some t)" and
    clo2: "\<forall>x \<in> V' - V1. stored db x \<longrightarrow> set (neighbour_ids db x) \<subseteq> V'" and
    snd2: "\<forall>y \<in> V' - V1. \<exists>x \<in> set rest. (x, y) \<in> (expand db)\<^sup>*"
    by (rule loop_postE)
  let ?new = "t # new1 @ new2"
  have 1: "V \<subseteq> V'" and 2: "set (r # rest) \<subseteq> V'" using sub1 sub2 by auto
  have 3: "c' = c @ ?new" using new1(1) new2(1) by simp
  have "r \<notin> set (map tx_id new1)" "r \<notin> set (map tx_id new2)"
       "set (map tx_id new1) \<inter> set (map tx_id new2) = {}"
    using new1(3) new2(3) sub1(1) by blast+
  with new1(2) new2(2) id have 4: "distinct (map tx_id ?new)"
    by simp
  have 5: "set (map tx_id ?new) = {x \<in> V' - V. stored db x}"
    using new1(3) new2(3) id st nv sub1 sub2 by auto
  have 6: "\<forall>u \<in> set ?new. get_transaction db (tx_id u) = Inr (Some u)"
    using new1(4) new2(4) got id by auto
  have 7: "\<forall>x \<in> V' - V. stored db x \<longrightarrow> set (neighbour_ids db x) \<subseteq> V'"
  proof (intro ballI impI)
    fix x assume x: "x \<in> V' - V" and sx: "stored db x"
    consider "x = r" | "x \<in> V1 - insert r V" | "x \<in> V' - V1" using x by blast
    then show "set (neighbour_ids db x) \<subseteq> V'"
    proof cases
      case 1 with sub1(2) sub2(1) show ?thesis by blast
    next
      case 2 with clo1 sx sub2(1) show ?thesis by blast
    next
      case 3 with clo2 sx show ?thesis by blast
    qed
  qed
  have 8: "\<forall>y \<in> V' - V. \<exists>x \<in> set (r # rest). (x, y) \<in> (expand db)\<^sup>*"
  proof
    fix y assume y: "y \<in> V' - V"
    consider "y = r" | "y \<in> V1 - insert r V" | "y \<in> V' - V1" using y by blast
    then show "\<exists>x \<in> set (r # rest). (x, y) \<in> (expand db)\<^sup>*"
    proof cases
      case 1 then show ?thesis by auto
    next
      case 2
      with snd1 obtain x where x: "x \<in> set (neighbour_ids db r)" "(x, y) \<in> (expand db)\<^sup>*"
        by blast
      from st x(1) have "(r, x) \<in> expand db" by (simp add: expand_def)
      with x(2) have "(r, y) \<in> (expand db)\<^sup>*" by (simp add: converse_rtrancl_into_rtrancl)
      then show ?thesis by auto
    next
      case 3
      with snd2 obtain x where "x \<in> set rest" "(x, y) \<in> (expand db)\<^sup>*" by blast
      then show ?thesis by auto
    qed
  qed
  from 1 2 3 4 5 6 7 8 show ?thesis by (rule loop_postI)
qed

lemma get_transaction_None_not_stored:
  assumes "get_transaction db x = Inr None"
  shows "\<not> stored db x"
proof -
  from assms have "find (\<lambda>r. col_id r = x) (transactions db) = None"
    by (auto simp: get_transaction_def split: option.splits sum.splits)
  then show ?thesis by (simp add: find_col_id_None_iff stored_def)
qed

lemma related_loop_post:
  "related_loop db ids s = Inr s' \<Longrightarrow> loop_post db ids s s'"
proof (induction db ids s arbitrary: s' rule: related_loop.induct)
  case (1 db state)
  then show ?case by (simp add: loop_post_Nil)
next
  case (2 db related_id rest chain visited)
  obtain c' V' where s': "s' = (c', V')" by (cases s')
  show ?case
  proof (cases "related_id \<in> visited")
    case True
    with "2.prems" have run: "related_loop db rest (chain, visited) = Inr s'" by simp
    from "2.IH"(1) [OF True run] True show ?thesis
      unfolding s' by (rule loop_post_skip [rotated])
  next
    case nv: False
    show ?thesis
    proof (cases "get_transaction db related_id")
      case (Inl e)
      with "2.prems" nv show ?thesis by simp
    next
      case (Inr found)
      show ?thesis
      proof (cases found)
        case None
        with "2.prems" nv Inr
        have run: "related_loop db rest (chain, insert related_id visited) = Inr s'" by simp
        from Inr None have ns: "\<not> stored db related_id"
          by (simp add: get_transaction_None_not_stored)
        from "2.IH"(2) [OF nv Inr None run] show ?thesis
          unfolding s' by (rule loop_post_dangling [OF nv ns])
      next
        case (Some t)
        let ?inner = "related_loop db (child_ids db related_id @ parent_ids db related_id)
                        (chain @ [t], insert related_id visited)"
        from "2.prems" nv Inr Some obtain mid where
          run1: "?inner = Inr mid" and run2: "related_loop db rest mid = Inr s'"
          by (cases ?inner) auto
        obtain c1 V1 where mid: "mid = (c1, V1)" by (cases mid)
        from Inr Some have got: "get_transaction db related_id = Inr (Some t)" by simp
        from "2.IH"(3) [OF nv Inr Some run1]
        have p1: "loop_post db (neighbour_ids db related_id)
                    (chain @ [t], insert related_id visited) (c1, V1)"
          by (simp add: mid neighbour_ids_def)
        from "2.IH"(4) [OF nv Inr Some run1 run2]
        have p2: "loop_post db rest (c1, V1) (c', V')" by (simp add: mid s')
        from nv got p1 p2 show ?thesis unfolding s' by (rule loop_post_found)
      qed
    qed
  qed
qed

lemma related_loop_returns:
  "rows_decode db \<Longrightarrow> \<exists>s'. related_loop db ids s = Inr s'"
proof (induction db ids s rule: related_loop.induct)
  case (1 db state)
  show ?case by simp
next
  case (2 db related_id rest chain visited)
  note ok = "2.prems"
  show ?case
  proof (cases "related_id \<in> visited")
    case True
    with "2.IH"(1) [OF True ok] show ?thesis by simp
  next
    case nv: False
    show ?thesis
    proof (cases "stored db related_id")
      case False
      then have got: "get_transaction db related_id = Inr None"
        by (rule get_transaction_not_stored)
      from "2.IH"(2) [OF nv got refl ok] nv got show ?thesis by simp
    next
      case True
      with ok obtain t where got: "get_transaction db related_id = Inr (Some t)"
        using get_transaction_stored by blast
      from "2.IH"(3) [OF nv got refl ok] obtain mid where
        run1: "related_loop db (child_ids db related_id @ parent_ids db related_id)
                 (chain @ [t], insert related_id visited) = Inr mid" by blast
      from "2.IH"(4) [OF nv got refl run1 ok] obtain s' where
        run2: "related_loop db rest mid = Inr s'" by blast
      with run1 nv got show ?thesis by simp
    qed
  qed
qed

subsection \<open>The sort\<close>

lemma insort_timestamp_key:
  fixes k :: "Transaction \<Rightarrow> 'k::linorder"
  assumes "\<And>y. y \<in> set ys \<Longrightarrow> datetime_lt (timestamp x) (timestamp y) = Inr (k x < k y)"
    and "sorted (map k ys)"
  shows "\<exists>zs. insort_timestamp x ys = Inr zs \<and> mset zs = add_mset x (mset ys) \<and> sorted (map k zs)"
  using assms
proof (induction ys)
  case Nil
  then show ?case by simp
next
  case (Cons y ys)
  show ?case
  proof (cases "k x < k y")
    case True
    with Cons.prems show ?thesis by auto
  next
    case False
    from Cons.prems have "\<exists>zs. insort_timestamp x ys = Inr zs \<and> mset zs = add_mset x (mset ys) \<and> sorted (map k zs)"
      by (intro Cons.IH) auto
    then obtain zs where zs: "insort_timestamp x ys = Inr zs" "mset zs = add_mset x (mset ys)" "sorted (map k zs)"
      by blast
    from zs(2) have "set zs = insert x (set ys)" by (metis set_mset_add_mset_insert set_mset_mset)
    with Cons.prems(2) False zs(3) have "sorted (map k (y # zs))" by auto
    with zs False Cons.prems(1) [of y] show ?thesis by simp
  qed
qed

lemma sort_into_key:
  fixes k :: "Transaction \<Rightarrow> 'k::linorder"
  assumes "\<And>x y. x \<in> set xs \<union> set acc \<Longrightarrow> y \<in> set xs \<union> set acc \<Longrightarrow>
             datetime_lt (timestamp x) (timestamp y) = Inr (k x < k y)"
    and "sorted (map k acc)"
  shows "\<exists>zs. sort_into acc xs = Inr zs \<and> mset zs = mset acc + mset xs \<and> sorted (map k zs)"
  using assms
proof (induction xs arbitrary: acc)
  case Nil
  then show ?case by simp
next
  case (Cons x xs)
  from Cons.prems obtain acc' where a: "insort_timestamp x acc = Inr acc'"
      "mset acc' = add_mset x (mset acc)" "sorted (map k acc')"
    using insort_timestamp_key [where k = k and ys = acc and x = x] by auto
  from a(2) have s: "set acc' = insert x (set acc)" by (metis set_mset_add_mset_insert set_mset_mset)
  have "\<exists>zs. sort_into acc' xs = Inr zs \<and> mset zs = mset acc' + mset xs \<and> sorted (map k zs)"
    using Cons.prems(1) a(3) s by (intro Cons.IH) auto
  with a show ?case by auto
qed

lemma datetime_lt_naive:
  "tzinfo a = None \<Longrightarrow> tzinfo b = None \<Longrightarrow> datetime_lt a b = Inr (calendar_fields a < calendar_fields b)"
  by (simp add: datetime_lt_def)

lemma datetime_lt_aware:
  "tzinfo a \<noteq> None \<Longrightarrow> tzinfo b \<noteq> None \<Longrightarrow> datetime_lt a b = Inr (utc_micros a < utc_micros b)"
  by (auto simp: datetime_lt_def)

lemma sorted_map_not_later:
  fixes k :: "Transaction \<Rightarrow> 'k::linorder"
  assumes "\<And>x y. x \<in> set zs \<Longrightarrow> y \<in> set zs \<Longrightarrow>
             datetime_lt (timestamp x) (timestamp y) = Inr (k x < k y)"
    and "sorted (map k zs)"
  shows "sorted_wrt not_later zs"
proof -
  from assms(2) have "sorted_wrt (\<lambda>a b. k a \<le> k b) zs" by (simp add: sorted_map)
  then show ?thesis
  proof (rule sorted_wrt_mono_rel [rotated])
    fix a b assume "a \<in> set zs" "b \<in> set zs" "k a \<le> k b"
    with assms(1) [of b a] show "not_later a b" by (simp add: not_later_def)
  qed
qed

lemma sort_by_timestamp_uniform:
  assumes "(\<forall>t \<in> set chain. tzinfo (timestamp t) = None) \<or>
           (\<forall>t \<in> set chain. tzinfo (timestamp t) \<noteq> None)"
  shows "\<exists>zs. sort_by_timestamp chain = Inr zs \<and> mset zs = mset chain \<and> sorted_wrt not_later zs"
  using assms
proof
  assume n: "\<forall>t \<in> set chain. tzinfo (timestamp t) = None"
  let ?k = "\<lambda>t. calendar_fields (timestamp t)"
  have cmp: "\<And>x y. x \<in> set chain \<Longrightarrow> y \<in> set chain \<Longrightarrow>
          datetime_lt (timestamp x) (timestamp y) = Inr (?k x < ?k y)"
    using n by (simp add: datetime_lt_naive)
  then obtain zs where zs: "sort_into [] chain = Inr zs" "mset zs = mset chain" "sorted (map ?k zs)"
    using sort_into_key [where k = ?k and xs = chain and acc = "[]"] by auto
  from zs(2) have "set zs = set chain" by (rule mset_eq_setD)
  with cmp zs(3) have "sorted_wrt not_later zs" by (intro sorted_map_not_later [where k = ?k]) auto
  with zs show ?thesis by (simp add: sort_by_timestamp_def)
next
  assume n: "\<forall>t \<in> set chain. tzinfo (timestamp t) \<noteq> None"
  let ?k = "\<lambda>t. utc_micros (timestamp t)"
  have cmp: "\<And>x y. x \<in> set chain \<Longrightarrow> y \<in> set chain \<Longrightarrow>
          datetime_lt (timestamp x) (timestamp y) = Inr (?k x < ?k y)"
    using n by (simp add: datetime_lt_aware)
  then obtain zs where zs: "sort_into [] chain = Inr zs" "mset zs = mset chain" "sorted (map ?k zs)"
    using sort_into_key [where k = ?k and xs = chain and acc = "[]"] by auto
  from zs(2) have "set zs = set chain" by (rule mset_eq_setD)
  with cmp zs(3) have "sorted_wrt not_later zs" by (intro sorted_map_not_later [where k = ?k]) auto
  with zs show ?thesis by (simp add: sort_by_timestamp_def)
qed

subsection \<open>The chain as a connected component\<close>

lemma neighbour_ids_linked: "b \<in> set (neighbour_ids db a) \<longleftrightarrow> (a, b) \<in> linked db"
  by (auto simp: neighbour_ids_def child_ids_def parent_ids_def linked_def)

lemma expand_reach_stored:
  assumes "(a, b) \<in> (expand db)\<^sup>*" and "stored db a"
  shows "stored db b \<longrightarrow> (a, b) \<in> (linked_stored db)\<^sup>*"
  using assms(1)
proof (induction rule: rtrancl_induct)
  case base
  show ?case by simp
next
  case (step y z)
  show ?case
  proof
    assume z: "stored db z"
    from step.hyps(2) have y: "stored db y" and yz: "(y, z) \<in> linked db"
      by (simp_all add: expand_def neighbour_ids_linked)
    with step.IH have "(a, y) \<in> (linked_stored db)\<^sup>*" by simp
    moreover from y z yz have "(y, z) \<in> linked_stored db" by (simp add: linked_stored_def)
    ultimately show "(a, z) \<in> (linked_stored db)\<^sup>*" by (rule rtrancl_into_rtrancl)
  qed
qed

lemma linked_stored_reach:
  assumes "(a, b) \<in> (linked_stored db)\<^sup>*" and "stored db a"
  shows "(a, b) \<in> (expand db)\<^sup>* \<and> stored db b"
  using assms(1)
proof (induction rule: rtrancl_induct)
  case base
  from assms(2) show ?case by simp
next
  case (step y z)
  from step.hyps(2) have "(y, z) \<in> expand db" and "stored db z"
    by (simp_all add: linked_stored_def expand_def neighbour_ids_linked)
  with step.IH show ?case by (auto intro: rtrancl_into_rtrancl)
qed

lemma reach_eq:
  assumes "stored db a"
  shows "{x. (a, x) \<in> (expand db)\<^sup>* \<and> stored db x} = (linked_stored db)\<^sup>* `` {a}"
  using expand_reach_stored [OF _ assms] linked_stored_reach [OF _ assms] by auto

lemma closed_reach:
  assumes "a \<in> V" and "\<forall>x \<in> V. stored db x \<longrightarrow> set (neighbour_ids db x) \<subseteq> V"
    and "(a, b) \<in> (expand db)\<^sup>*"
  shows "b \<in> V"
  using assms(3)
proof (induction rule: rtrancl_induct)
  case base
  from assms(1) show ?case .
next
  case (step y z)
  from step.hyps(2) have "stored db y" "z \<in> set (neighbour_ids db y)"
    by (simp_all add: expand_def)
  with step.IH assms(2) show ?case by blast
qed

lemma traversal_result:
  assumes got: "get_transaction db start = Inr (Some t)"
    and run': "get_related_transactions db start ([t], {start}) = Inr (chain, V)"
  shows "distinct (map tx_id chain) \<and>
         set (map tx_id chain) = (linked_stored db)\<^sup>* `` {start} \<and>
         (\<forall>u \<in> set chain. get_transaction db (tx_id u) = Inr (Some u)) \<and>
         (set (neighbour_ids db start) = {} \<longrightarrow> chain = [t])"
proof -
  from get_transaction_Some_stored [OF got] have st: "stored db start" and id: "tx_id t = start"
    by simp_all
  from run' have run: "related_loop db (neighbour_ids db start) ([t], {start}) = Inr (chain, V)"
    by (simp add: get_related_transactions_def neighbour_ids_def)
  then have post: "loop_post db (neighbour_ids db start) ([t], {start}) (chain, V)"
    by (rule related_loop_post)
  from post obtain new where
    sub: "{start} \<subseteq> V" "set (neighbour_ids db start) \<subseteq> V" and
    new: "chain = [t] @ new" "distinct (map tx_id new)"
         "set (map tx_id new) = {x \<in> V - {start}. stored db x}"
         "\<forall>u \<in> set new. get_transaction db (tx_id u) = Inr (Some u)" and
    clo: "\<forall>x \<in> V - {start}. stored db x \<longrightarrow> set (neighbour_ids db x) \<subseteq> V" and
    snd: "\<forall>y \<in> V - {start}. \<exists>x \<in> set (neighbour_ids db start). (x, y) \<in> (expand db)\<^sup>*"
    by (rule loop_postE)
  have clo': "\<forall>x \<in> V. stored db x \<longrightarrow> set (neighbour_ids db x) \<subseteq> V"
    using clo sub(2) by blast
  have V: "V = {x. (start, x) \<in> (expand db)\<^sup>*}"
  proof (intro equalityI subsetI)
    fix y assume y: "y \<in> V"
    show "y \<in> {x. (start, x) \<in> (expand db)\<^sup>*}"
    proof (cases "y = start")
      case True then show ?thesis by simp
    next
      case False
      with y snd obtain x where x: "x \<in> set (neighbour_ids db start)" "(x, y) \<in> (expand db)\<^sup>*"
        by blast
      from st x(1) have "(start, x) \<in> expand db" by (simp add: expand_def)
      with x(2) show ?thesis by (simp add: converse_rtrancl_into_rtrancl)
    qed
  next
    fix y assume "y \<in> {x. (start, x) \<in> (expand db)\<^sup>*}"
    then have "(start, y) \<in> (expand db)\<^sup>*" by simp
    with sub(1) clo' show "y \<in> V" by (intro closed_reach [of start V db y]) auto
  qed
  have ids: "set (map tx_id chain) = {x \<in> V. stored db x}"
    using new(1,3) id st sub(1) by auto
  have 2: "distinct (map tx_id chain)"
    using new(1,2,3) id by auto
  have 3: "set (map tx_id chain) = (linked_stored db)\<^sup>* `` {start}"
    using ids V reach_eq [OF st] by simp
  have 4: "\<forall>u \<in> set chain. get_transaction db (tx_id u) = Inr (Some u)"
    using new(1,4) got id by auto
  have 5: "set (neighbour_ids db start) = {} \<longrightarrow> chain = [t]"
  proof
    assume e: "set (neighbour_ids db start) = {}"
    with snd have "V - {start} = {}" by auto
    with new(3) have "new = []" by auto
    with new(1) show "chain = [t]" by simp
  qed
  from 2 3 4 5 show ?thesis by blast
qed

lemma get_transaction_row:
  assumes "get_transaction db x = Inr (Some t)"
  shows "\<exists>r \<in> set (transactions db). decode_row r = Inr t"
proof -
  from assms obtain r where f: "find (\<lambda>r. col_id r = x) (transactions db) = Some r"
    and t: "decode_row r = Inr t"
    by (auto simp: get_transaction_def split: option.splits sum.splits)
  from find_col_id_Some [OF f] t show ?thesis by blast
qed

lemma comparable_chain:
  assumes "timestamps_comparable db"
    and "\<forall>u \<in> set chain. get_transaction db (tx_id u) = Inr (Some u)"
  shows "(\<forall>t \<in> set chain. tzinfo (timestamp t) = None) \<or>
         (\<forall>t \<in> set chain. tzinfo (timestamp t) \<noteq> None)"
proof -
  have rows: "\<forall>u \<in> set chain. \<exists>r \<in> set (transactions db). decode_row r = Inr u"
    using assms(2) get_transaction_row by blast
  from assms(1) show ?thesis unfolding timestamps_comparable_def
  proof
    assume "list_all row_naive (transactions db)"
    then have "\<forall>r \<in> set (transactions db). row_naive r" by (simp add: list_all_iff)
    with rows have "\<forall>t \<in> set chain. tzinfo (timestamp t) = None"
      by (fastforce simp: row_naive_def)
    then show ?thesis ..
  next
    assume "list_all row_aware (transactions db)"
    then have "\<forall>r \<in> set (transactions db). row_aware r" by (simp add: list_all_iff)
    with rows have "\<forall>t \<in> set chain. tzinfo (timestamp t) \<noteq> None"
      by (fastforce simp: row_aware_def)
    then show ?thesis ..
  qed
qed


lemma insort_timestamp_mset:
  "insort_timestamp x ys = Inr zs \<Longrightarrow> mset zs = add_mset x (mset ys)"
proof (induction ys arbitrary: zs)
  case Nil
  then show ?case by auto
next
  case (Cons y ys)
  show ?case
  proof (cases "datetime_lt (timestamp x) (timestamp y)")
    case (Inl e)
    with Cons.prems show ?thesis by simp
  next
    case (Inr b)
    show ?thesis
    proof (cases b)
      case True
      with Inr Cons.prems show ?thesis by auto
    next
      case False
      with Inr Cons.prems obtain zs' where z: "insort_timestamp x ys = Inr zs'" "zs = y # zs'"
        by (cases "insort_timestamp x ys") auto
      from Cons.IH [OF z(1)] z(2) show ?thesis by simp
    qed
  qed
qed

lemma sort_into_mset:
  "sort_into acc xs = Inr zs \<Longrightarrow> mset zs = mset acc + mset xs"
proof (induction xs arbitrary: acc)
  case Nil
  then show ?case by simp
next
  case (Cons x xs)
  from Cons.prems obtain acc' where a: "insort_timestamp x acc = Inr acc'" "sort_into acc' xs = Inr zs"
    by (cases "insort_timestamp x acc") auto
  from Cons.IH [OF a(2)] insort_timestamp_mset [OF a(1)] show ?case by simp
qed

lemma sort_by_timestamp_mset:
  "sort_by_timestamp chain = Inr zs \<Longrightarrow> mset zs = mset chain"
  using sort_into_mset [of "[]" chain zs] by (simp add: sort_by_timestamp_def)

text \<open>The shape of every run of \<open>get_transaction_chain\<close> that returns a list.\<close>

lemma chain_cases:
  assumes "get_transaction_chain db start = Inr zs"
  obtains (absent) "get_transaction db start = Inr None" and "zs = []"
  | (present) t chain V where "get_transaction db start = Inr (Some t)"
      and "get_related_transactions db start ([t], {start}) = Inr (chain, V)"
      and "sort_by_timestamp chain = Inr zs"
proof (cases "get_transaction db start")
  case (Inl e)
  with assms show ?thesis by (simp add: get_transaction_chain_def)
next
  case (Inr found)
  show ?thesis
  proof (cases found)
    case None
    with Inr assms absent show ?thesis by (simp add: get_transaction_chain_def)
  next
    case (Some t)
    show ?thesis
    proof (cases "get_related_transactions db start ([t], {start})")
      case (Inl e)
      with Inr Some assms show ?thesis by (simp add: get_transaction_chain_def)
    next
      case run: (Inr st)
      obtain chain V where st: "st = (chain, V)" by (cases st)
      with Inr Some run assms have "sort_by_timestamp chain = Inr zs"
        by (simp add: get_transaction_chain_def)
      with Inr Some run st present show ?thesis by simp
    qed
  qed
qed

lemma chain_elements:
  assumes "get_transaction_chain db start = Inr zs"
  shows "distinct (map tx_id zs) \<and>
         (\<forall>u \<in> set zs. get_transaction db (tx_id u) = Inr (Some u))"
  using assms
proof (cases rule: chain_cases)
  case absent
  then show ?thesis by simp
next
  case (present t chain V)
  from traversal_result [OF present(1,2)]
  have d: "distinct (map tx_id chain)"
    and rows: "\<forall>u \<in> set chain. get_transaction db (tx_id u) = Inr (Some u)" by simp_all
  from sort_by_timestamp_mset [OF present(3)] have m: "mset zs = mset chain" .
  then have "mset (map tx_id zs) = mset (map tx_id chain)" by simp
  with d have "distinct (map tx_id zs)" by (metis mset_eq_imp_distinct_iff)
  moreover from m have "set zs = set chain" by (rule mset_eq_setD)
  ultimately show ?thesis using rows by simp
qed

lemma chain_returns:
  assumes ok: "rows_decode db" and cmp: "timestamps_comparable db"
  shows "\<exists>zs. get_transaction_chain db start = Inr zs"
proof (cases "stored db start")
  case False
  then show ?thesis
    by (simp add: get_transaction_chain_def get_transaction_not_stored)
next
  case True
  from get_transaction_stored [OF ok True] obtain t where
    got: "get_transaction db start = Inr (Some t)" by blast
  from related_loop_returns [OF ok] obtain chain V where
    run: "get_related_transactions db start ([t], {start}) = Inr (chain, V)"
    unfolding get_related_transactions_def by (metis surj_pair)
  from traversal_result [OF got run]
  have rows: "\<forall>u \<in> set chain. get_transaction db (tx_id u) = Inr (Some u)" by simp
  from sort_by_timestamp_uniform [OF comparable_chain [OF cmp rows]] obtain zs where
    "sort_by_timestamp chain = Inr zs" by blast
  with got run show ?thesis by (simp add: get_transaction_chain_def)
qed

lemma chain_component:
  assumes ok: "rows_decode db" and cmp: "timestamps_comparable db" and st: "stored db start"
  shows "\<exists>t chain. get_transaction db start = Inr (Some t) \<and>
           get_transaction_chain db start = Inr chain \<and>
           set (map tx_id chain) = (linked_stored db)\<^sup>* `` {start} \<and>
           distinct (map tx_id chain) \<and>
           (\<forall>u \<in> set chain. get_transaction db (tx_id u) = Inr (Some u)) \<and>
           sorted_wrt not_later chain \<and>
           (linked db `` {start} = {} \<longrightarrow> chain = [t])"
proof -
  from get_transaction_stored [OF ok st] obtain t where got: "get_transaction db start = Inr (Some t)"
    by blast
  from related_loop_returns [OF ok] obtain chain V where
    run: "get_related_transactions db start ([t], {start}) = Inr (chain, V)"
    unfolding get_related_transactions_def by (metis surj_pair)
  from traversal_result [OF got run] have
    d: "distinct (map tx_id chain)" and
    ids: "set (map tx_id chain) = (linked_stored db)\<^sup>* `` {start}" and
    rows: "\<forall>u \<in> set chain. get_transaction db (tx_id u) = Inr (Some u)" and
    single: "set (neighbour_ids db start) = {} \<longrightarrow> chain = [t]"
    by simp_all
  from sort_by_timestamp_uniform [OF comparable_chain [OF cmp rows]] obtain zs where
    zs: "sort_by_timestamp chain = Inr zs" "mset zs = mset chain" "sorted_wrt not_later zs"
    by blast
  from zs(2) have set: "set zs = set chain" by (rule mset_eq_setD)
  from zs(2) have "mset (map tx_id zs) = mset (map tx_id chain)" by simp
  with d have d': "distinct (map tx_id zs)" by (metis mset_eq_imp_distinct_iff)
  have 1: "get_transaction_chain db start = Inr zs"
    using got run zs(1) by (simp add: get_transaction_chain_def)
  have 2: "set (map tx_id zs) = (linked_stored db)\<^sup>* `` {start}"
    using ids set by simp
  have 3: "\<forall>u \<in> set zs. get_transaction db (tx_id u) = Inr (Some u)"
    using rows set by simp
  have 4: "linked db `` {start} = {} \<longrightarrow> zs = [t]"
  proof
    assume "linked db `` {start} = {}"
    then have "\<forall>b. b \<notin> set (neighbour_ids db start)"
      by (auto simp: neighbour_ids_linked)
    then have "neighbour_ids db start = []"
      by (cases "neighbour_ids db start") auto
    with single have "chain = [t]" by simp
    with zs(2) show "zs = [t]" by simp
  qed
  from got 1 2 d' 3 zs(3) 4 show ?thesis by blast
qed

subsection \<open>Results and failures of the operations\<close>

lemma decode_rows_returns:
  "list_all decodes rows \<Longrightarrow> \<exists>ts. decode_rows rows = Inr ts \<and> map Inr ts = map decode_row rows"
proof (induction rows)
  case Nil
  show ?case by simp
next
  case (Cons r rows)
  from Cons.prems obtain t where t: "decode_row r = Inr t"
    by (cases "decode_row r") (auto simp: decodes_def)
  from Cons obtain ts where "decode_rows rows = Inr ts" "map Inr ts = map decode_row rows"
    by auto
  with t show ?case by simp
qed


lemma get_all_transactions_returns:
  assumes "rows_decode db"
  shows "\<exists>ts. get_all_transactions db = Inr ts \<and>
           map Inr ts = map decode_row (order_by_timestamp_desc (transactions db))"
proof -
  have "set (order_by_timestamp_desc (transactions db)) = set (transactions db)"
    by (simp add: order_by_timestamp_desc_def)
  with assms have "list_all decodes (order_by_timestamp_desc (transactions db))"
    by (simp add: rows_decode_def list_all_iff)
  from decode_rows_returns [OF this] show ?thesis
    by (simp add: get_all_transactions_def)
qed

lemma get_transaction_returns:
  assumes "rows_decode db"
  shows "\<exists>found. get_transaction db i = Inr found"
proof (cases "stored db i")
  case True
  from get_transaction_stored [OF assms True] show ?thesis by blast
next
  case False
  then show ?thesis by (simp add: get_transaction_not_stored)
qed

lemma link_transactions_locked:
  "reserved db \<Longrightarrow> link_transactions db parent child rel_type = (db, False)"
  by (simp add: link_transactions_def)

lemma link_transactions_parent_raises:
  "get_transaction db parent = Inl e \<Longrightarrow> link_transactions db parent child rel_type = (db, False)"
  by (simp add: link_transactions_def Let_def get_transaction_reserved)

lemma save_transaction_raises:
  "row_values t = Inl e \<Longrightarrow> save_transaction db t = (db, False)"
  by (simp add: save_transaction_def)

subsection \<open>The rows an operation reads\<close>

lemma expand_neighbour_reach:
  assumes "stored db r" and "i \<in> set (child_ids db r @ parent_ids db r)"
    and "(i, x) \<in> (expand db)\<^sup>*"
  shows "(r, x) \<in> (expand db)\<^sup>*"
proof -
  from assms(1,2) have "(r, i) \<in> expand db" by (simp add: expand_def neighbour_ids_def)
  then show ?thesis using assms(3) by (rule converse_rtrancl_into_rtrancl)
qed

lemma related_loop_returns_read:
  "(\<forall>x. (\<exists>i \<in> set ids. (i, x) \<in> (expand db)\<^sup>*) \<longrightarrow> (\<exists>found. get_transaction db x = Inr found))
     \<Longrightarrow> \<exists>s'. related_loop db ids s = Inr s'"
proof (induction db ids s rule: related_loop.induct)
  case (1 db state)
  show ?case by simp
next
  case (2 db related_id rest chain visited)
  note ok = "2.prems"
  from ok have okr: "\<forall>x. (\<exists>i \<in> set rest. (i, x) \<in> (expand db)\<^sup>*) \<longrightarrow>
      (\<exists>found. get_transaction db x = Inr found)" by auto
  show ?case
  proof (cases "related_id \<in> visited")
    case True
    with "2.IH"(1) [OF True okr] show ?thesis by simp
  next
    case nv: False
    from ok obtain found where got: "get_transaction db related_id = Inr found" by auto
    show ?thesis
    proof (cases found)
      case None
      from "2.IH"(2) [OF nv got None okr] nv got None show ?thesis by simp
    next
      case (Some t)
      from got Some have st: "stored db related_id"
        using get_transaction_Some_stored by blast
      have oki: "\<forall>x. (\<exists>i \<in> set (child_ids db related_id @ parent_ids db related_id).
          (i, x) \<in> (expand db)\<^sup>*) \<longrightarrow> (\<exists>found. get_transaction db x = Inr found)"
      proof (intro allI impI)
        fix x
        assume "\<exists>i \<in> set (child_ids db related_id @ parent_ids db related_id).
          (i, x) \<in> (expand db)\<^sup>*"
        then obtain i where "i \<in> set (child_ids db related_id @ parent_ids db related_id)"
          "(i, x) \<in> (expand db)\<^sup>*" by blast
        with st have "(related_id, x) \<in> (expand db)\<^sup>*" by (rule expand_neighbour_reach)
        with ok show "\<exists>found. get_transaction db x = Inr found" by auto
      qed
      from "2.IH"(3) [OF nv got Some oki] obtain mid where
        run1: "related_loop db (child_ids db related_id @ parent_ids db related_id)
                 (chain @ [t], insert related_id visited) = Inr mid" by blast
      from "2.IH"(4) [OF nv got Some run1 okr] obtain s' where
        run2: "related_loop db rest mid = Inr s'" by blast
      with run1 nv got Some show ?thesis by simp
    qed
  qed
qed

lemma related_loop_raises:
  "related_loop db ids s = Inl e \<Longrightarrow>
     \<exists>x. (\<exists>i \<in> set ids. (i, x) \<in> (expand db)\<^sup>*) \<and> get_transaction db x = Inl e"
proof (induction db ids s rule: related_loop.induct)
  case (1 db state)
  then show ?case by simp
next
  case (2 db related_id rest chain visited)
  have up: "\<exists>x. (\<exists>i \<in> set (related_id # rest). (i, x) \<in> (expand db)\<^sup>*) \<and>
      get_transaction db x = Inl e"
    if "\<exists>x. (\<exists>i \<in> set rest. (i, x) \<in> (expand db)\<^sup>*) \<and> get_transaction db x = Inl e"
    using that by auto
  show ?case
  proof (cases "related_id \<in> visited")
    case True
    with "2.prems" have "related_loop db rest (chain, visited) = Inl e" by simp
    from up [OF "2.IH"(1) [OF True this]] show ?thesis .
  next
    case nv: False
    show ?thesis
    proof (cases "get_transaction db related_id")
      case (Inl e')
      with "2.prems" nv have "e' = e" by simp
      with Inl show ?thesis by auto
    next
      case (Inr found)
      show ?thesis
      proof (cases found)
        case None
        with "2.prems" nv Inr
        have "related_loop db rest (chain, insert related_id visited) = Inl e" by simp
        from up [OF "2.IH"(2) [OF nv Inr None this]] show ?thesis .
      next
        case (Some t)
        from Inr Some have st: "stored db related_id"
          using get_transaction_Some_stored by blast
        let ?inner = "related_loop db (child_ids db related_id @ parent_ids db related_id)
                        (chain @ [t], insert related_id visited)"
        show ?thesis
        proof (cases ?inner)
          case inner: (Inl e')
          with "2.prems" nv Inr Some have "e' = e" by simp
          with inner "2.IH"(3) [OF nv Inr Some] obtain x i where
            i: "i \<in> set (child_ids db related_id @ parent_ids db related_id)"
               "(i, x) \<in> (expand db)\<^sup>*" and x: "get_transaction db x = Inl e" by blast
          from expand_neighbour_reach [OF st i] x show ?thesis by auto
        next
          case run1: (Inr mid)
          with "2.prems" nv Inr Some have "related_loop db rest mid = Inl e" by simp
          from up [OF "2.IH"(4) [OF nv Inr Some run1 this]] show ?thesis .
        qed
      qed
    qed
  qed
qed

lemma reach_not_stored:
  assumes "\<not> stored db a" and "(a, x) \<in> (expand db)\<^sup>*"
  shows "x = a"
  using assms(2,1) by (induction rule: converse_rtrancl_induct) (auto simp: expand_def)

lemma traversal_reads_decode:
  assumes got: "get_transaction db start = Inr (Some t)"
    and run': "get_related_transactions db start ([t], {start}) = Inr (chain, V)"
    and x: "(start, x) \<in> (expand db)\<^sup>*"
  shows "\<exists>found. get_transaction db x = Inr found"
proof -
  from run' have "related_loop db (neighbour_ids db start) ([t], {start}) = Inr (chain, V)"
    by (simp add: get_related_transactions_def neighbour_ids_def)
  then have "loop_post db (neighbour_ids db start) ([t], {start}) (chain, V)"
    by (rule related_loop_post)
  then obtain new where
    sub: "{start} \<subseteq> V" "set (neighbour_ids db start) \<subseteq> V" and
    new: "set (map tx_id new) = {x \<in> V - {start}. stored db x}"
         "\<forall>u \<in> set new. get_transaction db (tx_id u) = Inr (Some u)" and
    clo: "\<forall>x \<in> V - {start}. stored db x \<longrightarrow> set (neighbour_ids db x) \<subseteq> V"
    by (rule loop_postE)
  have clo': "\<forall>x \<in> V. stored db x \<longrightarrow> set (neighbour_ids db x) \<subseteq> V"
    using clo sub(2) by blast
  from sub(1) have "start \<in> V" by simp
  from closed_reach [OF this clo' x] have xV: "x \<in> V" .
  show ?thesis
  proof (cases "x = start")
    case True
    with got show ?thesis by simp
  next
    case ne: False
    show ?thesis
    proof (cases "stored db x")
      case False
      then show ?thesis by (simp add: get_transaction_not_stored)
    next
      case True
      with xV ne new(1) have "x \<in> set (map tx_id new)" by simp
      then obtain u where "u \<in> set new" "tx_id u = x" by auto
      with new(2) show ?thesis by auto
    qed
  qed
qed

lemma chain_returns_read:
  assumes ok: "chain_rows_decode db start" and cmp: "chain_comparable db start"
  shows "\<exists>zs. get_transaction_chain db start = Inr zs"
proof -
  from ok obtain found where got0: "get_transaction db start = Inr found"
    by (auto simp: chain_rows_decode_def read_by_chain_def)
  show ?thesis
  proof (cases found)
    case None
    with got0 show ?thesis by (simp add: get_transaction_chain_def)
  next
    case (Some t)
    with got0 have got: "get_transaction db start = Inr (Some t)" by simp
    from get_transaction_Some_stored [OF got] have st: "stored db start" by simp
    have "\<forall>x. (\<exists>i \<in> set (child_ids db start @ parent_ids db start). (i, x) \<in> (expand db)\<^sup>*) \<longrightarrow>
        (\<exists>found. get_transaction db x = Inr found)"
    proof (intro allI impI)
      fix x
      assume "\<exists>i \<in> set (child_ids db start @ parent_ids db start). (i, x) \<in> (expand db)\<^sup>*"
      then obtain i where "i \<in> set (child_ids db start @ parent_ids db start)"
        "(i, x) \<in> (expand db)\<^sup>*" by blast
      with st have "(start, x) \<in> (expand db)\<^sup>*" by (rule expand_neighbour_reach)
      with ok show "\<exists>found. get_transaction db x = Inr found"
        by (auto simp: chain_rows_decode_def read_by_chain_def)
    qed
    from related_loop_returns_read [OF this] obtain chain V where
      run: "get_related_transactions db start ([t], {start}) = Inr (chain, V)"
      unfolding get_related_transactions_def by (metis surj_pair)
    from traversal_result [OF got run]
    have ids: "set (map tx_id chain) = (linked_stored db)\<^sup>* `` {start}"
      and rows: "\<forall>u \<in> set chain. get_transaction db (tx_id u) = Inr (Some u)" by simp_all
    have rd: "tx_id u \<in> read_by_chain db start" if "u \<in> set chain" for u
    proof -
      from that ids have "(start, tx_id u) \<in> (linked_stored db)\<^sup>*" by auto
      from linked_stored_reach [OF this st] show ?thesis by (simp add: read_by_chain_def)
    qed
    from cmp have "(\<forall>t \<in> set chain. tzinfo (timestamp t) = None) \<or>
           (\<forall>t \<in> set chain. tzinfo (timestamp t) \<noteq> None)"
      unfolding chain_comparable_def using rd rows by blast
    from sort_by_timestamp_uniform [OF this] obtain zs where
      "sort_by_timestamp chain = Inr zs" by blast
    with got run show ?thesis by (simp add: get_transaction_chain_def)
  qed
qed

lemma chain_raises_read:
  assumes "\<not> chain_rows_decode db start"
  shows "\<exists>e x. get_transaction_chain db start = Inl e \<and> x \<in> read_by_chain db start \<and>
           get_transaction db x = Inl e"
proof (cases "get_transaction db start")
  case (Inl e)
  then have "get_transaction_chain db start = Inl e" by (simp add: get_transaction_chain_def)
  moreover have "start \<in> read_by_chain db start" by (simp add: read_by_chain_def)
  ultimately show ?thesis using Inl by blast
next
  case (Inr found)
  show ?thesis
  proof (cases found)
    case None
    with Inr have "\<not> stored db start" by (simp add: get_transaction_None_not_stored)
    then have "read_by_chain db start = {start}"
      using reach_not_stored [of db start] by (auto simp: read_by_chain_def)
    with Inr assms show ?thesis by (simp add: chain_rows_decode_def)
  next
    case (Some t)
    with Inr have got: "get_transaction db start = Inr (Some t)" by simp
    from get_transaction_Some_stored [OF got] have st: "stored db start" by simp
    show ?thesis
    proof (cases "get_related_transactions db start ([t], {start})")
      case (Inl e)
      then have "related_loop db (child_ids db start @ parent_ids db start) ([t], {start}) = Inl e"
        by (simp add: get_related_transactions_def)
      from related_loop_raises [OF this] obtain x i where
        i: "i \<in> set (child_ids db start @ parent_ids db start)" "(i, x) \<in> (expand db)\<^sup>*"
        and x: "get_transaction db x = Inl e" by blast
      from expand_neighbour_reach [OF st i] have "x \<in> read_by_chain db start"
        by (simp add: read_by_chain_def)
      moreover from got Inl have "get_transaction_chain db start = Inl e"
        by (simp add: get_transaction_chain_def)
      ultimately show ?thesis using x by blast
    next
      case run: (Inr s')
      obtain chain V where "s' = (chain, V)" by (cases s')
      with run have "get_related_transactions db start ([t], {start}) = Inr (chain, V)" by simp
      from traversal_reads_decode [OF got this] have "chain_rows_decode db start"
        by (simp add: chain_rows_decode_def read_by_chain_def)
      with assms show ?thesis by simp
    qed
  qed
qed

lemma row_values_Inl_iff:
  "(\<exists>e. row_values t = Inl e) =
     (to_json (raw_data t) = None \<or> to_json (related_transactions t) = None)"
  by (auto simp: row_values_def json_dumps_def split: option.splits)

lemma save_transaction_False_iff:
  "(\<not> snd (save_transaction db t)) = (reserved db \<or> (\<exists>e. row_values t = Inl e))"
  by (auto simp: save_transaction_def split: sum.splits)

lemma save_transaction_False_unchanged:
  "\<not> snd (save_transaction db t) \<Longrightarrow> fst (save_transaction db t) = db"
  by (auto simp: save_transaction_def split: sum.splits if_splits)

lemma link_transactions_False_iff:
  "(\<not> snd (link_transactions db parent child rel_type)) =
     (reserved db \<or> (\<exists>e. get_transaction db parent = Inl e) \<or>
      (\<exists>p e. get_transaction db parent = Inr (Some p) \<and>
         (py_in child (related_transactions p) = Inl e \<or>
          py_in child (related_transactions p) = Inr False \<and>
            py_append (related_transactions p) child = Inl e)))"
  by (auto simp: link_transactions_def Let_def get_transaction_reserved
      split: sum.splits option.splits bool.splits prod.splits)

lemma link_transactions_False_unchanged:
  "\<not> snd (link_transactions db parent child rel_type) \<Longrightarrow>
     fst (link_transactions db parent child rel_type) = db"
  by (auto simp: link_transactions_def Let_def get_transaction_reserved
      split: sum.splits option.splits bool.splits prod.splits if_splits)

lemma get_transaction_raises_iff:
  "(get_transaction db i = Inl e) =
     (\<exists>r. find (\<lambda>r. col_id r = i) (transactions db) = Some r \<and> decode_row r = Inl e)"
  by (auto simp: get_transaction_def split: option.splits sum.splits)

lemma decode_rows_raises:
  "\<not> list_all decodes rows \<Longrightarrow> \<exists>e r. decode_rows rows = Inl e \<and> r \<in> set rows \<and> decode_row r = Inl e"
proof (induction rows)
  case Nil
  then show ?case by simp
next
  case (Cons r rows)
  show ?case
  proof (cases "decode_row r")
    case (Inl e)
    then show ?thesis by auto
  next
    case (Inr t)
    then have "decodes r" by (simp add: decodes_def)
    with Cons.prems have "\<not> list_all decodes rows" by simp
    from Cons.IH [OF this] obtain e r' where "decode_rows rows = Inl e" "r' \<in> set rows"
      "decode_row r' = Inl e" by blast
    with Inr show ?thesis by auto
  qed
qed

lemma get_all_transactions_raises:
  assumes "\<not> rows_decode db"
  shows "\<exists>e r. get_all_transactions db = Inl e \<and> r \<in> set (transactions db) \<and> decode_row r = Inl e"
proof -
  have s: "set (order_by_timestamp_desc (transactions db)) = set (transactions db)"
    by (simp add: order_by_timestamp_desc_def)
  with assms have "\<not> list_all decodes (order_by_timestamp_desc (transactions db))"
    by (simp add: rows_decode_def list_all_iff)
  from decode_rows_raises [OF this] s show ?thesis
    by (simp add: get_all_transactions_def)
qed

subsection \<open>Evaluation of the examples\<close>

lemma valid_ex_datetime: "h < 24 \<Longrightarrow> valid_datetime (ex_datetime h)"
  by (simp add: valid_datetime_def ex_datetime_def days_in_month_def)

lemma row_values_ex: "row_values (ex_tx i ts) = Inr (ex_row i ts)"
  by (simp add: row_values_def ex_tx_def ex_row_def json_dumps_def)

lemma decode_ex_row: "valid_datetime ts \<Longrightarrow> decode_row (ex_row i ts) = Inr (ex_tx i ts)"
  using decode_row_row_values [of "ex_tx i ts" "JObj []" "JArr []"]
  by (simp add: row_values_ex) (simp add: ex_tx_def)

lemma col_id_ex_row: "col_id (ex_row i ts) = i"
  by (simp add: ex_row_def)

lemma ex_tx_sel: "tx_id (ex_tx i ts) = i" "timestamp (ex_tx i ts) = ts"
  by (simp_all add: ex_tx_def)

lemma ex_datetime_sel:
  "tzinfo (ex_datetime h) = None" "calendar_fields (ex_datetime h) = [2024, 1, 1, h, 0, 0, 0]"
  by (simp_all add: ex_datetime_def calendar_fields_def)

lemma ex_link_sel: "parent_id (ex_link p c) = p" "child_id (ex_link p c) = c"
  by (simp_all add: ex_link_def)

lemma ex_store_sel:
  "transactions (ex_store rows links) = rows" "transaction_links (ex_store rows links) = links"
  "reserved (ex_store rows links) = False"
  by (simp_all add: ex_store_def)

lemmas ex_simps = valid_ex_datetime decode_ex_row col_id_ex_row ex_tx_sel ex_datetime_sel
  ex_link_sel ex_store_sel

lemmas chain_defs = get_transaction_chain_def get_related_transactions_def get_transaction_def
  child_ids_def parent_ids_def sort_by_timestamp_def datetime_lt_def

lemma valid_aware_ex_datetime: "h < 24 \<Longrightarrow> valid_datetime ((ex_datetime h)\<lparr>tzinfo := Some 0\<rparr>)"
  by (simp add: valid_datetime_def ex_datetime_def days_in_month_def)

lemma ex_single_sel:
  "transactions ex_single = [ex_row ''A'' (ex_datetime 1)]" "transaction_links ex_single = []"
  "reserved ex_single = False"
  by (simp_all add: ex_single_def ex_simps)

lemma get_ex_single: "get_transaction ex_single ''A'' = Inr (Some (ex_tx ''A'' (ex_datetime 1)))"
  by (simp add: get_transaction_def ex_single_sel ex_simps)

lemma valid_ex_native: "valid_datetime (timestamp ex_native)"
  by (simp add: ex_native_def ex_tx_def ex_datetime_def valid_datetime_def days_in_month_def)

lemma save_ex_native: "snd (save_transaction empty_database ex_native) = True"
  by (simp add: save_transaction_def row_values_def json_dumps_def ex_native_def ex_tx_def
      empty_database_def)

lemma row_values_ex_second:
  "row_values ex_second =
     Inr ((ex_row ''A'' (ex_datetime 2))\<lparr>col_amount := 2, col_status := ''failed''\<rparr>)"
  by (simp add: ex_second_def row_values_def ex_tx_def ex_row_def json_dumps_def)

lemma ex_corrupt_sel:
  "transactions ex_corrupt = [(ex_row ''A'' (ex_datetime 1))\<lparr>col_raw_data := OtherText ''{''\<rparr>]"
  "transaction_links ex_corrupt = []" "reserved ex_corrupt = False"
  by (simp_all add: ex_corrupt_def ex_simps)

lemma get_ex_corrupt: "get_transaction ex_corrupt ''A'' = Inl JSONDecodeError"
  by (simp add: get_transaction_def ex_corrupt_sel ex_simps decode_row_def)

lemma row_values_ex_bytes: "row_values ex_bytes = Inl TypeError"
  by (simp add: row_values_def json_dumps_def ex_bytes_def ex_tx_def)

lemma save_ex_tx:
  "save_transaction (ex_store rows links) (ex_tx i ts) =
     (ex_store (replace_row (ex_row i ts) rows) links, True)"
  by (simp add: save_transaction_def row_values_ex ex_store_def)

lemma ex_mixed_by_operations:
  "save_transaction empty_database (ex_tx ''A'' (ex_datetime 1)) =
     (ex_store [ex_row ''A'' (ex_datetime 1)] [], True) \<and>
   save_transaction (ex_store [ex_row ''A'' (ex_datetime 1)] [])
       (ex_tx ''B'' ((ex_datetime 2)\<lparr>tzinfo := Some 0\<rparr>)) =
     (ex_store [ex_row ''A'' (ex_datetime 1), ex_row ''B'' ((ex_datetime 2)\<lparr>tzinfo := Some 0\<rparr>)] [],
      True) \<and>
   link_transactions
       (ex_store [ex_row ''A'' (ex_datetime 1), ex_row ''B'' ((ex_datetime 2)\<lparr>tzinfo := Some 0\<rparr>)] [])
       ''A'' ''B'' ''continuation'' =
     (ex_mixed, True)"
proof -
  have e: "empty_database = ex_store [] []" by (simp add: empty_database_def ex_store_def)
  have 1: "save_transaction empty_database (ex_tx ''A'' (ex_datetime 1)) =
     (ex_store [ex_row ''A'' (ex_datetime 1)] [], True)"
    unfolding e save_ex_tx by (simp add: replace_row_def)
  have 2: "save_transaction (ex_store [ex_row ''A'' (ex_datetime 1)] [])
       (ex_tx ''B'' ((ex_datetime 2)\<lparr>tzinfo := Some 0\<rparr>)) =
     (ex_store [ex_row ''A'' (ex_datetime 1), ex_row ''B'' ((ex_datetime 2)\<lparr>tzinfo := Some 0\<rparr>)] [],
      True)"
    unfolding save_ex_tx by (simp add: replace_row_def ex_simps)
  let ?db = "ex_store [ex_row ''A'' (ex_datetime 1), ex_row ''B'' ((ex_datetime 2)\<lparr>tzinfo := Some 0\<rparr>)] []"
  have g: "\<And>h r. h < 24 \<Longrightarrow>
      get_transaction (ex_store [ex_row ''A'' (ex_datetime h), r] []) ''A'' =
        Inr (Some (ex_tx ''A'' (ex_datetime h)))"
    by (simp add: get_transaction_def ex_simps)
  have r: "\<And>i ts. related_transactions (ex_tx i ts) = PList []"
    by (simp add: ex_tx_def)
  have 3: "link_transactions ?db ''A'' ''B'' ''continuation'' = (ex_mixed, True)"
    by (simp add: link_transactions_def Let_def ex_store_sel get_transaction_reserved g r
        save_transaction_locked replace_link_def)
      (simp add: ex_mixed_def ex_store_def ex_link_def)
  from 1 2 3 show ?thesis by blast
qed

subsection \<open>Lookup of an id that is not stored\<close>

lemma find_col_id_None:
  "transaction_id \<notin> set (map col_id rows) \<Longrightarrow> find (\<lambda>r. col_id r = transaction_id) rows = None"
  by (induction rows) auto

text \<open>
  Claim C7. For a store and an id under which no row is stored, \<open>get_transaction\<close>
  returns \<open>None\<close> and \<open>get_transaction_chain\<close> returns the empty list; neither raises
  (the results are \<open>Inr\<close>), whatever the rest of the store holds.
\<close>

theorem not_found_is_no_error:
  assumes "transaction_id \<notin> set (map col_id (transactions db))"
  shows "get_transaction db transaction_id = Inr None \<and>
         get_transaction_chain db transaction_id = Inr []"
  using assms by (simp add: get_transaction_def get_transaction_chain_def find_col_id_None)

theorem not_found_is_no_error_witness:
  "''Z'' \<notin> set (map col_id (transactions (ex_store [(ex_row ''A'' (ex_datetime 1))\<lparr>col_timestamp := ''not a date''\<rparr>] [ex_link ''A'' ''Z'']))) \<and>
   get_transaction (ex_store [(ex_row ''A'' (ex_datetime 1))\<lparr>col_timestamp := ''not a date''\<rparr>] [ex_link ''A'' ''Z'']) ''Z'' = Inr None \<and>
   get_transaction_chain (ex_store [(ex_row ''A'' (ex_datetime 1))\<lparr>col_timestamp := ''not a date''\<rparr>] [ex_link ''A'' ''Z'']) ''Z'' = Inr []"
proof -
  have h: "''Z'' \<notin> set (map col_id (transactions (ex_store [(ex_row ''A'' (ex_datetime 1))\<lparr>col_timestamp := ''not a date''\<rparr>] [ex_link ''A'' ''Z''])))"
    by (simp add: ex_store_def ex_row_def)
  from not_found_is_no_error [OF h] h show ?thesis by blast
qed

subsection \<open>Cycles\<close>

text \<open>
  Claim C5. \<open>get_transaction_chain\<close> is a total function: \<open>related_loop\<close> was
  accepted with a termination proof that puts no condition on the link table, so a
  cycle of links cannot make it run forever. Every list it returns holds each id at
  most once, however many links lead to an id. And it does return a list when the rows
  of the store decode and their timestamps can be compared. The witness is the store
  with the links \<open>A \<rightarrow> B\<close> and \<open>B \<rightarrow> A\<close>: the chain of \<open>A\<close> is \<open>A, B\<close>, each once.
\<close>

theorem chain_terminates_each_once:
  "(\<forall>chain. get_transaction_chain db start = Inr chain \<longrightarrow> distinct (map tx_id chain)) \<and>
   (rows_decode db \<and> timestamps_comparable db \<longrightarrow>
      (\<exists>chain. get_transaction_chain db start = Inr chain))"
  using chain_elements [of db start] chain_returns [of db start] by blast

theorem chain_terminates_each_once_witness:
  "rows_decode ex_cycle \<and> timestamps_comparable ex_cycle \<and>
   get_transaction_chain ex_cycle ''A'' =
     Inr [ex_tx ''A'' (ex_datetime 1), ex_tx ''B'' (ex_datetime 2)] \<and>
   distinct (map tx_id [ex_tx ''A'' (ex_datetime 1), ex_tx ''B'' (ex_datetime 2)])"
proof -
  have h1: "rows_decode ex_cycle"
    by (simp add: ex_cycle_def rows_decode_def decodes_def ex_simps)
  have h2: "timestamps_comparable ex_cycle"
    by (simp add: ex_cycle_def timestamps_comparable_def row_naive_def ex_simps)
  have run: "get_transaction_chain ex_cycle ''A'' =
      Inr [ex_tx ''A'' (ex_datetime 1), ex_tx ''B'' (ex_datetime 2)]"
    by (simp add: ex_cycle_def chain_defs ex_simps)
  from chain_terminates_each_once [of ex_cycle "''A''"] run
  have "distinct (map tx_id [ex_tx ''A'' (ex_datetime 1), ex_tx ''B'' (ex_datetime 2)])"
    by blast
  with h1 h2 run show ?thesis by blast
qed

subsection \<open>Dangling links\<close>

text \<open>
  Claim C6. An id of the link table without a row is looked up, found absent without
  an exception, marked as visited and otherwise passed over: the loop goes on with the
  rest of the list and an unchanged chain. No list that \<open>get_transaction_chain\<close>
  returns has an element under an id that is not stored. The call returns a list
  whenever the rows decode and their timestamps can be compared, whatever the link
  table holds.
\<close>

theorem dangling_edges_are_skipped:
  "(\<not> stored db d \<longrightarrow>
      get_transaction db d = Inr None \<and>
      related_loop db (d # rest) (chain, visited) =
        related_loop db rest (chain, insert d visited)) \<and>
   (\<forall>zs. get_transaction_chain db start = Inr zs \<longrightarrow> (\<forall>u \<in> set zs. stored db (tx_id u))) \<and>
   (rows_decode db \<and> timestamps_comparable db \<longrightarrow>
      (\<exists>zs. get_transaction_chain db start = Inr zs))"
proof (intro conjI impI allI)
  assume "\<not> stored db d"
  then show "get_transaction db d = Inr None" by (rule get_transaction_not_stored)
  then show "related_loop db (d # rest) (chain, visited) =
      related_loop db rest (chain, insert d visited)"
    by (simp add: insert_absorb)
next
  fix zs assume "get_transaction_chain db start = Inr zs"
  from chain_elements [OF this] show "\<forall>u \<in> set zs. stored db (tx_id u)"
    using get_transaction_Some_stored by blast
next
  assume "rows_decode db \<and> timestamps_comparable db"
  then show "\<exists>zs. get_transaction_chain db start = Inr zs"
    using chain_returns by blast
qed

theorem dangling_edges_are_skipped_witness:
  "\<not> stored ex_dangling ''D'' \<and> rows_decode ex_dangling \<and> timestamps_comparable ex_dangling \<and>
   get_transaction ex_dangling ''D'' = Inr None \<and>
   get_transaction_chain ex_dangling ''A'' = Inr [ex_tx ''A'' (ex_datetime 1)] \<and>
   stored ex_dangling (tx_id (ex_tx ''A'' (ex_datetime 1)))"
proof -
  have h1: "\<not> stored ex_dangling ''D''"
    by (simp add: ex_dangling_def stored_def ex_simps)
  have h2: "rows_decode ex_dangling"
    by (simp add: ex_dangling_def rows_decode_def decodes_def ex_simps)
  have h3: "timestamps_comparable ex_dangling"
    by (simp add: ex_dangling_def timestamps_comparable_def row_naive_def ex_simps)
  have run: "get_transaction_chain ex_dangling ''A'' = Inr [ex_tx ''A'' (ex_datetime 1)]"
    by (simp add: ex_dangling_def chain_defs ex_simps)
  note inst = dangling_edges_are_skipped [of ex_dangling "''D''" "[]" "[]" "{}" "''A''"]
  from inst h1 have 1: "get_transaction ex_dangling ''D'' = Inr None" by blast
  from inst run have 2: "stored ex_dangling (tx_id (ex_tx ''A'' (ex_datetime 1)))" by simp
  from h1 h2 h3 1 run 2 show ?thesis by blast
qed

subsection \<open>The chain of a stored id\<close>

text \<open>
  Claim C1, as the code has it. For a store whose rows decode and whose timestamps can
  be compared, and a start id that is stored, \<open>get_transaction_chain\<close> returns the
  stored transactions of exactly those ids that are connected to the start id by links,
  in either direction, through stored ids only; each id once; every element is the
  transaction that \<open>get_transaction\<close> returns for its id; the list is in ascending
  order of timestamp; and when no link touches the start id the list is the start
  transaction alone.
\<close>

theorem chain_is_stored_component:
  assumes "rows_decode db" and "timestamps_comparable db" and "stored db start"
  shows "\<exists>t chain. get_transaction db start = Inr (Some t) \<and>
           get_transaction_chain db start = Inr chain \<and>
           set (map tx_id chain) = (linked_stored db)\<^sup>* `` {start} \<and>
           distinct (map tx_id chain) \<and>
           (\<forall>u \<in> set chain. get_transaction db (tx_id u) = Inr (Some u)) \<and>
           sorted_wrt not_later chain \<and>
           (linked db `` {start} = {} \<longrightarrow> chain = [t])"
  using assms by (rule chain_component)

theorem chain_is_stored_component_witness:
  "rows_decode ex_fan \<and> timestamps_comparable ex_fan \<and> stored ex_fan ''A'' \<and>
   get_transaction_chain ex_fan ''A'' =
     Inr [ex_tx ''A'' (ex_datetime 1), ex_tx ''C'' (ex_datetime 2), ex_tx ''B'' (ex_datetime 3)] \<and>
   set (map tx_id [ex_tx ''A'' (ex_datetime 1), ex_tx ''C'' (ex_datetime 2), ex_tx ''B'' (ex_datetime 3)]) =
     (linked_stored ex_fan)\<^sup>* `` {''A''} \<and>
   sorted_wrt not_later
     [ex_tx ''A'' (ex_datetime 1), ex_tx ''C'' (ex_datetime 2), ex_tx ''B'' (ex_datetime 3)]"
proof -
  have h1: "rows_decode ex_fan"
    by (simp add: ex_fan_def rows_decode_def decodes_def ex_simps)
  have h2: "timestamps_comparable ex_fan"
    by (simp add: ex_fan_def timestamps_comparable_def row_naive_def ex_simps)
  have h3: "stored ex_fan ''A''"
    by (simp add: ex_fan_def stored_def ex_simps)
  have run: "get_transaction_chain ex_fan ''A'' =
      Inr [ex_tx ''A'' (ex_datetime 1), ex_tx ''C'' (ex_datetime 2), ex_tx ''B'' (ex_datetime 3)]"
    by (simp add: ex_fan_def chain_defs ex_simps)
  from chain_is_stored_component [OF h1 h2 h3] run h1 h2 h3 show ?thesis by auto
qed

text \<open>
  The claim as it is written fails in two ways. In \<open>ex_dangling\<close> the stored id \<open>C\<close> is
  reached from \<open>A\<close> over the links \<open>A \<rightarrow> D\<close> and \<open>D \<rightarrow> C\<close>, but \<open>D\<close> has no row, the
  traversal does not go on from it, and the chain of \<open>A\<close> is \<open>A\<close> alone. In \<open>ex_mixed\<close>
  the sort compares a naive with an aware timestamp and the call raises.
\<close>

theorem chain_is_link_component_counterexample:
  "stored ex_dangling ''A'' \<and> stored ex_dangling ''C'' \<and>
   (''A'', ''C'') \<in> (linked ex_dangling)\<^sup>* \<and>
   get_transaction_chain ex_dangling ''A'' = Inr [ex_tx ''A'' (ex_datetime 1)] \<and>
   stored ex_mixed ''A'' \<and>
   get_transaction_chain ex_mixed ''A'' = Inl TypeError"
proof -
  have 1: "stored ex_dangling ''A''" and 2: "stored ex_dangling ''C''"
    by (simp_all add: ex_dangling_def stored_def ex_simps)
  have "(''A'', ''D'') \<in> linked ex_dangling" and "(''D'', ''C'') \<in> linked ex_dangling"
    by (simp_all add: ex_dangling_def linked_def ex_simps)
  then have 3: "(''A'', ''C'') \<in> (linked ex_dangling)\<^sup>*" by (meson r_into_rtrancl rtrancl_trans)
  have 4: "get_transaction_chain ex_dangling ''A'' = Inr [ex_tx ''A'' (ex_datetime 1)]"
    by (simp add: ex_dangling_def chain_defs ex_simps)
  have 5: "stored ex_mixed ''A''"
    by (simp add: ex_mixed_def stored_def ex_simps)
  have 6: "get_transaction_chain ex_mixed ''A'' = Inl TypeError"
    by (simp add: ex_mixed_def chain_defs ex_simps valid_aware_ex_datetime)
  from 1 2 3 4 5 6 show ?thesis by blast
qed

subsection \<open>Saving and reading back\<close>

text \<open>
  Claim C2, as the code has it. A transaction with a valid timestamp whose
  \<^verbatim>\<open>raw_data\<close> and \<^verbatim>\<open>related_transactions\<close> hold JSON values only (no tuple, no
  \<^verbatim>\<open>bytes\<close>) is read back equal in every field after a save that returned \<^verbatim>\<open>True\<close>:
  the timestamp through \<open>isoformat\<close> and \<open>fromisoformat\<close>, the two enumerations through
  their values, the two JSON fields through \<^verbatim>\<open>json.dumps\<close> and \<^verbatim>\<open>json.loads\<close>, the
  rest unchanged.
\<close>

theorem save_then_get_round_trip:
  assumes "valid_datetime (timestamp t)"
    and "json_native (raw_data t)" and "json_native (related_transactions t)"
    and "save_transaction db t = (db', True)"
  shows "get_transaction db' (tx_id t) = Inr (Some t)"
proof -
  from assms(4) obtain r where r: "row_values t = Inr r" and nr: "\<not> reserved db"
    and db': "db' = db\<lparr>transactions := replace_row r (transactions db)\<rparr>"
    by (rule save_transaction_True)
  from json_native_round_trip [OF assms(2)] obtain j1 where
    j1: "to_json (raw_data t) = Some j1" "of_json j1 = raw_data t" by auto
  from json_native_round_trip [OF assms(3)] obtain j2 where
    j2: "to_json (related_transactions t) = Some j2" "of_json j2 = related_transactions t" by auto
  from get_after_save [OF nr assms(1) j1(1) j2(1)] assms(4) j1(2) j2(2)
  show ?thesis by simp
qed

theorem save_then_get_round_trip_witness:
  "valid_datetime (timestamp ex_native) \<and> json_native (raw_data ex_native) \<and>
   json_native (related_transactions ex_native) \<and>
   save_transaction empty_database ex_native =
     (fst (save_transaction empty_database ex_native), True) \<and>
   get_transaction (fst (save_transaction empty_database ex_native)) (tx_id ex_native) =
     Inr (Some ex_native)"
proof -
  have h2: "json_native (raw_data ex_native)" and h3: "json_native (related_transactions ex_native)"
    by (simp_all add: ex_native_def ex_tx_def)
  have h4: "save_transaction empty_database ex_native =
      (fst (save_transaction empty_database ex_native), True)"
    using save_ex_native by (simp add: prod_eq_iff)
  from save_then_get_round_trip [OF valid_ex_native h2 h3 h4] valid_ex_native h2 h3 h4
  show ?thesis by blast
qed

text \<open>
  Without the condition on the JSON fields the claim fails: the save of \<open>ex_tuple\<close>
  returns \<^verbatim>\<open>True\<close>, and what is read back has a list where the tuple was.
\<close>

theorem tuple_round_trip_counterexample:
  "snd (save_transaction empty_database ex_tuple) = True \<and>
   get_transaction (fst (save_transaction empty_database ex_tuple)) (tx_id ex_tuple) =
     Inr (Some (ex_tuple\<lparr>raw_data := PDict [(''k'', PList [PInt 1, PInt 2])]\<rparr>)) \<and>
   get_transaction (fst (save_transaction empty_database ex_tuple)) (tx_id ex_tuple) \<noteq>
     Inr (Some ex_tuple)"
proof -
  have v: "valid_datetime (timestamp ex_tuple)"
    by (simp add: ex_tuple_def ex_tx_sel valid_ex_datetime)
  have j1: "to_json (raw_data ex_tuple) = Some (JObj [(''k'', JArr [JInt 1, JInt 2])])"
    and j2: "to_json (related_transactions ex_tuple) = Some (JArr [])"
    by (simp_all add: ex_tuple_def ex_tx_def)
  have nr: "\<not> reserved empty_database" by (simp add: empty_database_def)
  from get_after_save [OF nr v j1 j2] have
    1: "snd (save_transaction empty_database ex_tuple) = True" and
    2: "get_transaction (fst (save_transaction empty_database ex_tuple)) (tx_id ex_tuple) =
     Inr (Some (ex_tuple\<lparr>raw_data := PDict [(''k'', PList [PInt 1, PInt 2])]\<rparr>))"
    by (auto simp: ex_tuple_def ex_tx_def)
  have "ex_tuple\<lparr>raw_data := PDict [(''k'', PList [PInt 1, PInt 2])]\<rparr> \<noteq> ex_tuple"
    by (simp add: ex_tuple_def ex_tx_def)
  with 1 2 show ?thesis by simp
qed

subsection \<open>Saving under an id that exists\<close>

text \<open>
  Claim C3. Whether a save succeeds depends on the transaction (its two JSON fields must
  encode) and on the write lock, not on the rows of the store: in particular not on a
  row with the same id being there. After a successful save the table holds exactly one
  row under the id, the row of the transaction just saved; the rows under other ids and
  the links are what they were; and \<open>get_transaction\<close> returns what that row decodes
  to. The witness saves \<open>A\<close> twice with different values.
\<close>

theorem save_transaction_upsert:
  assumes "\<not> reserved db" and "row_values t = Inr r"
  shows "\<exists>db'. save_transaction db t = (db', True) \<and>
           filter (\<lambda>x. col_id x = tx_id t) (transactions db') = [r] \<and>
           filter (\<lambda>x. col_id x \<noteq> tx_id t) (transactions db') =
             filter (\<lambda>x. col_id x \<noteq> tx_id t) (transactions db) \<and>
           transaction_links db' = transaction_links db \<and>
           get_transaction db' (tx_id t) =
             (case decode_row r of Inl e \<Rightarrow> Inl e | Inr t' \<Rightarrow> Inr (Some t'))"
proof -
  from assms(2) have id: "col_id r = tx_id t" by (rule row_values_col_id)
  let ?db' = "db\<lparr>transactions := replace_row r (transactions db)\<rparr>"
  from assms have "save_transaction db t = (?db', True)"
    by (simp add: save_transaction_def)
  moreover have "filter (\<lambda>x. col_id x = tx_id t) (transactions ?db') = [r]"
    using filter_replace_row_same [of r "transactions db"] id by simp
  moreover have "filter (\<lambda>x. col_id x \<noteq> tx_id t) (transactions ?db') =
             filter (\<lambda>x. col_id x \<noteq> tx_id t) (transactions db)"
    using filter_replace_row_other [of r "transactions db"] id by simp
  moreover have "get_transaction ?db' (tx_id t) =
             (case decode_row r of Inl e \<Rightarrow> Inl e | Inr t' \<Rightarrow> Inr (Some t'))"
    using id by (rule get_after_replace)
  ultimately show ?thesis by simp
qed

theorem save_transaction_upsert_witness:
  "\<not> reserved ex_single \<and>
   row_values ex_second =
     Inr ((ex_row ''A'' (ex_datetime 2))\<lparr>col_amount := 2, col_status := ''failed''\<rparr>) \<and>
   stored ex_single (tx_id ex_second) \<and>
   save_transaction empty_database (ex_tx ''A'' (ex_datetime 1)) = (ex_single, True) \<and>
   (\<exists>db'. save_transaction ex_single ex_second = (db', True) \<and>
      filter (\<lambda>x. col_id x = ''A'') (transactions db') =
        [(ex_row ''A'' (ex_datetime 2))\<lparr>col_amount := 2, col_status := ''failed''\<rparr>] \<and>
      get_transaction db' ''A'' = Inr (Some ex_second))"
proof -
  let ?r = "(ex_row ''A'' (ex_datetime 2))\<lparr>col_amount := 2, col_status := ''failed''\<rparr>"
  have h1: "\<not> reserved ex_single" by (simp add: ex_single_def ex_simps)
  have id: "tx_id ex_second = ''A''" by (simp add: ex_second_def ex_tx_sel)
  have st: "stored ex_single (tx_id ex_second)"
    by (simp add: ex_single_def id stored_def ex_simps)
  have first: "save_transaction empty_database (ex_tx ''A'' (ex_datetime 1)) = (ex_single, True)"
    by (simp add: save_transaction_def row_values_ex empty_database_def ex_single_def
        ex_store_def replace_row_def)
  have dec: "decode_row ?r = Inr ex_second"
    using decode_row_row_values [of ex_second "JObj []" "JArr []"]
    by (simp add: row_values_ex_second) (simp add: ex_second_def ex_tx_def valid_ex_datetime)
  from save_transaction_upsert [OF h1 row_values_ex_second] obtain db' where
    s: "save_transaction ex_single ex_second = (db', True)" and
    f: "filter (\<lambda>x. col_id x = tx_id ex_second) (transactions db') = [?r]" and
    g: "get_transaction db' (tx_id ex_second) =
          (case decode_row ?r of Inl e \<Rightarrow> Inl e | Inr t' \<Rightarrow> Inr (Some t'))"
    by blast
  from g dec id have g': "get_transaction db' ''A'' = Inr (Some ex_second)" by simp
  from f id have f': "filter (\<lambda>x. col_id x = ''A'') (transactions db') = [?r]" by simp
  from h1 row_values_ex_second st first s f' g' show ?thesis by blast
qed

subsection \<open>Linking\<close>

text \<open>
  Claim C4 at the store \<open>ex_single\<close>: \<open>link_transactions\<close> for \<open>A\<close> and \<open>B\<close> returns
  \<^verbatim>\<open>True\<close> and the link is stored, but the row of \<open>A\<close> is what it was, and the
  \<^verbatim>\<open>related_transactions\<close> that \<open>get_transaction\<close> returns for \<open>A\<close> afterwards do not
  contain \<open>B\<close>. The nested \<open>save_transaction\<close> runs while the connection of
  \<open>link_transactions\<close> holds the write lock; it fails, returns \<^verbatim>\<open>False\<close>, and its
  result is ignored. The lemma \<open>link_transactions_keeps_rows\<close> says the same of every
  store: \<open>link_transactions\<close> never changes the table of transactions.
\<close>

theorem link_leaves_parent_unchanged:
  "link_transactions ex_single ''A'' ''B'' ''t'' =
     (ex_single\<lparr>transaction_links :=
        [\<lparr>parent_id = ''A'', child_id = ''B'', relationship_type = ''t''\<rparr>]\<rparr>, True) \<and>
   get_transaction
     (ex_single\<lparr>transaction_links :=
        [\<lparr>parent_id = ''A'', child_id = ''B'', relationship_type = ''t''\<rparr>]\<rparr>) ''A'' =
     Inr (Some (ex_tx ''A'' (ex_datetime 1))) \<and>
   related_transactions (ex_tx ''A'' (ex_datetime 1)) = PList [] \<and>
   py_in ''B'' (related_transactions (ex_tx ''A'' (ex_datetime 1))) = Inr False"
proof -
  have r: "\<And>i ts. related_transactions (ex_tx i ts) = PList []"
    by (simp add: ex_tx_def)
  have 1: "link_transactions ex_single ''A'' ''B'' ''t'' =
     (ex_single\<lparr>transaction_links :=
        [\<lparr>parent_id = ''A'', child_id = ''B'', relationship_type = ''t''\<rparr>]\<rparr>, True)"
    by (simp add: link_transactions_def Let_def ex_single_sel get_transaction_reserved
        get_ex_single r save_transaction_locked replace_link_def)
  have 2: "get_transaction
     (ex_single\<lparr>transaction_links :=
        [\<lparr>parent_id = ''A'', child_id = ''B'', relationship_type = ''t''\<rparr>]\<rparr>) ''A'' =
     Inr (Some (ex_tx ''A'' (ex_datetime 1)))"
    using get_ex_single by (simp add: get_transaction_def)
  from 1 2 r show ?thesis by simp
qed

subsection \<open>Evaluation of the examples of the failures\<close>

lemma ex_unread_sel:
  "transactions ex_unread =
     [ex_row ''A'' (ex_datetime 1), ex_row ''B'' (ex_datetime 2),
      (ex_row ''C'' (ex_datetime 3))\<lparr>col_raw_data := OtherText ''{''\<rparr>]"
  "transaction_links ex_unread = [ex_link ''A'' ''B'']"
  by (simp_all add: ex_unread_def ex_simps)

lemma get_ex_unread:
  "get_transaction ex_unread ''A'' = Inr (Some (ex_tx ''A'' (ex_datetime 1)))"
  "get_transaction ex_unread ''B'' = Inr (Some (ex_tx ''B'' (ex_datetime 2)))"
  "get_transaction ex_unread ''C'' = Inl JSONDecodeError"
proof -
  have c: "decode_row ((ex_row ''C'' (ex_datetime 3))\<lparr>col_raw_data := OtherText ''{''\<rparr>) =
      Inl JSONDecodeError" by (simp add: decode_row_def)
  have i: "col_id ((ex_row ''C'' (ex_datetime 3))\<lparr>col_raw_data := OtherText ''{''\<rparr>) = ''C''"
    by (simp add: ex_row_def)
  show "get_transaction ex_unread ''A'' = Inr (Some (ex_tx ''A'' (ex_datetime 1)))"
    "get_transaction ex_unread ''B'' = Inr (Some (ex_tx ''B'' (ex_datetime 2)))"
    "get_transaction ex_unread ''C'' = Inl JSONDecodeError"
    by (simp_all add: get_transaction_def ex_unread_sel ex_simps c i)
qed

lemma read_ex_unread: "read_by_chain ex_unread ''A'' \<subseteq> {''A'', ''B''}"
proof
  fix x assume "x \<in> read_by_chain ex_unread ''A''"
  then have "(''A'', x) \<in> (expand ex_unread)\<^sup>*" by (simp add: read_by_chain_def)
  then show "x \<in> {''A'', ''B''}"
    by (rule closed_reach [rotated 2])
      (simp_all add: neighbour_ids_def child_ids_def parent_ids_def ex_unread_sel ex_simps)
qed

lemma get_ex_null:
  "get_transaction ex_null ''A'' =
     Inr (Some ((ex_tx ''A'' (ex_datetime 1))\<lparr>related_transactions := PNone\<rparr>))"
proof -
  have "decode_row ((ex_row ''A'' (ex_datetime 1))\<lparr>col_related_transactions := JsonText JNull\<rparr>) =
      Inr ((ex_tx ''A'' (ex_datetime 1))\<lparr>related_transactions := PNone\<rparr>)"
    using decode_row_row_values
      [of "(ex_tx ''A'' (ex_datetime 1))\<lparr>related_transactions := PNone\<rparr>" "JObj []" JNull]
    by (simp add: row_values_def json_dumps_def ex_tx_def ex_row_def valid_ex_datetime)
  then show ?thesis by (simp add: get_transaction_def ex_null_def ex_store_def ex_row_def)
qed

subsection \<open>Exceptions\<close>

text \<open>
  Claim C9, as the code has it. \<open>save_transaction\<close> and \<open>link_transactions\<close> have a
  handler: they return \<^verbatim>\<open>False\<close> exactly when something raises inside \<^verbatim>\<open>try\<close> (for
  \<open>save_transaction\<close> a locked database or a \<^verbatim>\<open>raw_data\<close> or \<^verbatim>\<open>related_transactions\<close>
  that \<^verbatim>\<open>json.dumps\<close> cannot encode; for \<open>link_transactions\<close> a locked database, a parent
  row that does not decode, or the test \<^verbatim>\<open>in\<close> or the \<^verbatim>\<open>append\<close> on the parent's
  \<^verbatim>\<open>related_transactions\<close>), and then the store is as it was. The three reading
  operations have none, and a row that does not decode makes them raise:
  \<open>get_transaction\<close> raises exactly when the row under the id does not decode, with the
  error of that row; \<open>get_all_transactions\<close> returns a list when every row decodes and
  otherwise raises the error of a stored row; \<open>get_transaction_chain\<close> returns a list
  when every row it reads decodes and the timestamps of these rows are all naive or all
  aware, and raises the error of a row it reads when one of them does not decode.
\<close>

theorem failures_of_store_operations:
  "((\<not> snd (save_transaction db t)) =
      (reserved db \<or> to_json (raw_data t) = None \<or> to_json (related_transactions t) = None)) \<and>
   (\<not> snd (save_transaction db t) \<longrightarrow> fst (save_transaction db t) = db) \<and>
   ((\<not> snd (link_transactions db parent child rel_type)) =
      (reserved db \<or> (\<exists>e. get_transaction db parent = Inl e) \<or>
       (\<exists>p e. get_transaction db parent = Inr (Some p) \<and>
          (py_in child (related_transactions p) = Inl e \<or>
           py_in child (related_transactions p) = Inr False \<and>
             py_append (related_transactions p) child = Inl e)))) \<and>
   (\<not> snd (link_transactions db parent child rel_type) \<longrightarrow>
      fst (link_transactions db parent child rel_type) = db) \<and>
   ((get_transaction db i = Inl e) =
      (\<exists>r. find (\<lambda>r. col_id r = i) (transactions db) = Some r \<and> decode_row r = Inl e)) \<and>
   (rows_decode db \<longrightarrow> (\<exists>ts. get_all_transactions db = Inr ts)) \<and>
   (\<not> rows_decode db \<longrightarrow>
      (\<exists>e r. get_all_transactions db = Inl e \<and> r \<in> set (transactions db) \<and>
         decode_row r = Inl e)) \<and>
   (chain_rows_decode db i \<and> chain_comparable db i \<longrightarrow>
      (\<exists>chain. get_transaction_chain db i = Inr chain)) \<and>
   (\<not> chain_rows_decode db i \<longrightarrow>
      (\<exists>e x. get_transaction_chain db i = Inl e \<and> x \<in> read_by_chain db i \<and>
         get_transaction db x = Inl e))"
proof (intro conjI impI)
  show "(\<not> snd (save_transaction db t)) =
      (reserved db \<or> to_json (raw_data t) = None \<or> to_json (related_transactions t) = None)"
    by (simp add: save_transaction_False_iff row_values_Inl_iff)
next
  assume "\<not> snd (save_transaction db t)"
  then show "fst (save_transaction db t) = db" by (rule save_transaction_False_unchanged)
next
  show "(\<not> snd (link_transactions db parent child rel_type)) =
      (reserved db \<or> (\<exists>e. get_transaction db parent = Inl e) \<or>
       (\<exists>p e. get_transaction db parent = Inr (Some p) \<and>
          (py_in child (related_transactions p) = Inl e \<or>
           py_in child (related_transactions p) = Inr False \<and>
             py_append (related_transactions p) child = Inl e)))"
    by (rule link_transactions_False_iff)
next
  assume "\<not> snd (link_transactions db parent child rel_type)"
  then show "fst (link_transactions db parent child rel_type) = db"
    by (rule link_transactions_False_unchanged)
next
  show "(get_transaction db i = Inl e) =
      (\<exists>r. find (\<lambda>r. col_id r = i) (transactions db) = Some r \<and> decode_row r = Inl e)"
    by (rule get_transaction_raises_iff)
next
  assume "rows_decode db"
  from get_all_transactions_returns [OF this]
  show "\<exists>ts. get_all_transactions db = Inr ts" by blast
next
  assume "\<not> rows_decode db"
  then show "\<exists>e r. get_all_transactions db = Inl e \<and> r \<in> set (transactions db) \<and>
         decode_row r = Inl e" by (rule get_all_transactions_raises)
next
  assume "chain_rows_decode db i \<and> chain_comparable db i"
  then show "\<exists>chain. get_transaction_chain db i = Inr chain"
    using chain_returns_read by blast
next
  assume "\<not> chain_rows_decode db i"
  then show "\<exists>e x. get_transaction_chain db i = Inl e \<and> x \<in> read_by_chain db i \<and>
         get_transaction db x = Inl e" by (rule chain_raises_read)
qed

theorem failures_of_store_operations_witness:
  "\<not> snd (save_transaction ex_single ex_bytes) \<and>
   fst (save_transaction ex_single ex_bytes) = ex_single \<and>
   \<not> snd (link_transactions ex_corrupt ''A'' ''B'' ''t'') \<and>
   fst (link_transactions ex_corrupt ''A'' ''B'' ''t'') = ex_corrupt \<and>
   py_in ''B'' PNone = Inl TypeError \<and>
   \<not> snd (link_transactions ex_null ''A'' ''B'' ''t'') \<and>
   fst (link_transactions ex_null ''A'' ''B'' ''t'') = ex_null \<and>
   rows_decode ex_cycle \<and> (\<exists>ts. get_all_transactions ex_cycle = Inr ts) \<and>
   \<not> rows_decode ex_unread \<and> (\<exists>e. get_all_transactions ex_unread = Inl e) \<and>
   chain_rows_decode ex_unread ''A'' \<and> chain_comparable ex_unread ''A'' \<and>
   (\<exists>chain. get_transaction_chain ex_unread ''A'' = Inr chain) \<and>
   \<not> chain_rows_decode ex_unread ''C'' \<and>
   (\<exists>e. get_transaction_chain ex_unread ''C'' = Inl e)"
proof -
  note inst = failures_of_store_operations
  have b: "to_json (raw_data ex_bytes) = None" by (simp add: ex_bytes_def ex_tx_def)
  from inst [of ex_single ex_bytes] b
  have 1: "\<not> snd (save_transaction ex_single ex_bytes)"
    and 2: "fst (save_transaction ex_single ex_bytes) = ex_single" by blast+
  from inst [of ex_corrupt _ "''A''" "''B''" "''t''"] get_ex_corrupt
  have 3: "\<not> snd (link_transactions ex_corrupt ''A'' ''B'' ''t'')"
    and 4: "fst (link_transactions ex_corrupt ''A'' ''B'' ''t'') = ex_corrupt" by blast+
  have n: "py_in ''B'' PNone = Inl TypeError" by simp
  with get_ex_null
  have "\<exists>p e. get_transaction ex_null ''A'' = Inr (Some p) \<and>
      (py_in ''B'' (related_transactions p) = Inl e \<or>
       py_in ''B'' (related_transactions p) = Inr False \<and>
         py_append (related_transactions p) ''B'' = Inl e)" by simp
  with inst [of ex_null _ "''A''" "''B''" "''t''"]
  have 14: "\<not> snd (link_transactions ex_null ''A'' ''B'' ''t'')"
    and 15: "fst (link_transactions ex_null ''A'' ''B'' ''t'') = ex_null" by blast+
  have 5: "rows_decode ex_cycle"
    by (simp add: ex_cycle_def rows_decode_def decodes_def ex_simps)
  from inst [of ex_cycle] 5 have 6: "\<exists>ts. get_all_transactions ex_cycle = Inr ts" by blast
  have 7: "\<not> rows_decode ex_unread"
    by (simp add: rows_decode_def decodes_def ex_unread_sel decode_row_def ex_row_def)
  from inst [of ex_unread] 7 have 8: "\<exists>e. get_all_transactions ex_unread = Inl e" by blast
  have 9: "chain_rows_decode ex_unread ''A''"
    unfolding chain_rows_decode_def using read_ex_unread get_ex_unread(1,2) by blast
  have 10: "chain_comparable ex_unread ''A''"
    unfolding chain_comparable_def using read_ex_unread get_ex_unread(1,2)
    by (auto simp: ex_simps)
  from inst [of ex_unread _ _ _ _ "''A''"] 9 10
  have 11: "\<exists>chain. get_transaction_chain ex_unread ''A'' = Inr chain" by blast
  have "''C'' \<in> read_by_chain ex_unread ''C''" by (simp add: read_by_chain_def)
  with get_ex_unread(3) have 12: "\<not> chain_rows_decode ex_unread ''C''"
    unfolding chain_rows_decode_def by (intro notI) (drule bspec, assumption, simp)
  from inst [of ex_unread _ _ _ _ "''C''"] 12
  have 13: "\<exists>e. get_transaction_chain ex_unread ''C'' = Inl e" by blast
  from 1 2 3 4 n 14 15 5 6 7 8 9 10 11 12 13 show ?thesis by blast
qed

text \<open>
  What escapes: the \<^verbatim>\<open>JSONDecodeError\<close> of a cell that is not JSON, from all three
  reading operations, and the \<^verbatim>\<open>TypeError\<close> of the sort in \<open>get_transaction_chain\<close>
  on the store \<open>ex_mixed\<close>, which two calls of \<open>save_transaction\<close> and one of
  \<open>link_transactions\<close> build from the empty store (\<open>ex_mixed_by_operations\<close>).
\<close>

theorem exceptions_escape_counterexample:
  "get_transaction ex_corrupt ''A'' = Inl JSONDecodeError \<and>
   get_all_transactions ex_corrupt = Inl JSONDecodeError \<and>
   get_transaction_chain ex_corrupt ''A'' = Inl JSONDecodeError \<and>
   get_transaction_chain ex_mixed ''A'' = Inl TypeError"
proof -
  have 2: "get_all_transactions ex_corrupt = Inl JSONDecodeError"
    by (simp add: get_all_transactions_def order_by_timestamp_desc_def ex_corrupt_sel
        decode_row_def ex_row_def)
  have 3: "get_transaction_chain ex_corrupt ''A'' = Inl JSONDecodeError"
    by (simp add: get_transaction_chain_def get_ex_corrupt)
  have 4: "get_transaction_chain ex_mixed ''A'' = Inl TypeError"
    by (simp add: ex_mixed_def chain_defs ex_simps valid_aware_ex_datetime)
  from get_ex_corrupt 2 3 4 show ?thesis by blast
qed

subsection \<open>Stores that differ in the \<^verbatim>\<open>related_transactions\<close> column\<close>

lemma alike_timestamp: "alike t t' \<Longrightarrow> timestamp t = timestamp t'"
proof -
  assume "alike t t'"
  then have "timestamp (erase_related t) = timestamp (erase_related t')"
    by (simp add: alike_def)
  then show ?thesis by (simp add: erase_related_def)
qed

lemma forget_related_cols:
  assumes "forget_related r = forget_related r'"
  shows "col_id r = col_id r'" and "col_timestamp r = col_timestamp r'"
    and "col_transaction_type r = col_transaction_type r'" and "col_source r = col_source r'"
    and "col_amount r = col_amount r'" and "col_currency r = col_currency r'"
    and "col_fee r = col_fee r'" and "col_fee_currency r = col_fee_currency r'"
    and "col_status r = col_status r'" and "col_notes r = col_notes r'"
    and "col_raw_data r = col_raw_data r'"
proof -
  have "\<And>f. f (forget_related r) = f (forget_related r')" using assms by simp
  from this [of col_id] this [of col_timestamp] this [of col_transaction_type]
    this [of col_source] this [of col_amount] this [of col_currency] this [of col_fee]
    this [of col_fee_currency] this [of col_status] this [of col_notes] this [of col_raw_data]
  show "col_id r = col_id r'" and "col_timestamp r = col_timestamp r'"
    and "col_transaction_type r = col_transaction_type r'" and "col_source r = col_source r'"
    and "col_amount r = col_amount r'" and "col_currency r = col_currency r'"
    and "col_fee r = col_fee r'" and "col_fee_currency r = col_fee_currency r'"
    and "col_status r = col_status r'" and "col_notes r = col_notes r'"
    and "col_raw_data r = col_raw_data r'"
    by (simp_all add: forget_related_def)
qed

lemma rel_sum_InlD: "rel_sum (=) P (Inl e) y \<Longrightarrow> y = Inl e"
  by (cases y) simp_all

lemma rel_sum_InrD: "rel_sum (=) P (Inr a) y \<Longrightarrow> \<exists>b. y = Inr b \<and> P a b"
  by (cases y) simp_all

lemma rel_option_NoneD: "rel_option P None y \<Longrightarrow> y = None"
  by (cases y) simp_all

lemma rel_option_SomeD: "rel_option P (Some a) y \<Longrightarrow> \<exists>b. y = Some b \<and> P a b"
  by (cases y) simp_all

lemma from_dict_alike:
  assumes "forget_related r = forget_related r'"
  shows "rel_sum (=) alike (from_dict r raw rel) (from_dict r' raw rel')"
  unfolding from_dict_def forget_related_cols [OF assms]
  by (simp add: alike_def erase_related_def split: sum.splits)

lemma decode_row_alike:
  assumes "same_but_related_row r r'"
  shows "rel_sum (=) alike (decode_row r) (decode_row r')"
proof -
  from assms have f: "forget_related r = forget_related r'"
    and j: "is_json (col_related_transactions r) = is_json (col_related_transactions r')"
    by (simp_all add: same_but_related_row_def)
  note raw = forget_related_cols(11) [OF f]
  show ?thesis
  proof (cases "json_loads (col_raw_data r')")
    case (Inl e)
    then show ?thesis by (simp add: decode_row_def raw)
  next
    case (Inr v)
    show ?thesis
    proof (cases "col_related_transactions r")
      case (JsonText a)
      with j obtain b where "col_related_transactions r' = JsonText b"
        by (cases "col_related_transactions r'") auto
      with JsonText Inr from_dict_alike [OF f] show ?thesis
        by (simp add: decode_row_def raw)
    next
      case (OtherText a)
      with j obtain b where "col_related_transactions r' = OtherText b"
        by (cases "col_related_transactions r'") auto
      with OtherText Inr show ?thesis by (simp add: decode_row_def raw)
    qed
  qed
qed

lemma lookup_alike:
  assumes "list_all2 same_but_related_row rows rows'"
  shows "rel_sum (=) (rel_option alike)
      (case find (\<lambda>r. col_id r = i) rows of None \<Rightarrow> Inr None
       | Some data \<Rightarrow> (case decode_row data of Inl e \<Rightarrow> Inl e | Inr t \<Rightarrow> Inr (Some t)))
      (case find (\<lambda>r. col_id r = i) rows' of None \<Rightarrow> Inr None
       | Some data \<Rightarrow> (case decode_row data of Inl e \<Rightarrow> Inl e | Inr t \<Rightarrow> Inr (Some t)))"
  using assms
proof (induction rule: list_all2_induct)
  case Nil
  show ?case by simp
next
  case (Cons r rows r' rows')
  from Cons.hyps(1) have "forget_related r = forget_related r'"
    unfolding same_but_related_row_def by (rule conjunct1)
  then have id: "col_id r' = col_id r" by (rule forget_related_cols(1) [symmetric])
  show ?case
  proof (cases "col_id r = i")
    case True
    then have hit: "find (\<lambda>r. col_id r = i) (r # rows) = Some r"
      "find (\<lambda>r. col_id r = i) (r' # rows') = Some r'"
      by (simp_all add: id)
    note d = decode_row_alike [OF Cons.hyps(1)]
    show ?thesis
    proof (cases "decode_row r")
      case (Inl e)
      from d [unfolded Inl] have "decode_row r' = Inl e" by (rule rel_sum_InlD)
      with Inl show ?thesis unfolding hit by simp
    next
      case (Inr t)
      from d [unfolded Inr] have "\<exists>t'. decode_row r' = Inr t' \<and> alike t t'"
        by (rule rel_sum_InrD)
      then obtain t' where "decode_row r' = Inr t'" "alike t t'" by blast
      with Inr show ?thesis unfolding hit by simp
    qed
  next
    case False
    then have miss: "find (\<lambda>r. col_id r = i) (r # rows) = find (\<lambda>r. col_id r = i) rows"
      "find (\<lambda>r. col_id r = i) (r' # rows') = find (\<lambda>r. col_id r = i) rows'"
      by (simp_all add: id)
    from Cons.IH show ?thesis unfolding miss .
  qed
qed

lemma get_transaction_alike:
  assumes "same_but_related db db'"
  shows "rel_sum (=) (rel_option alike) (get_transaction db i) (get_transaction db' i)"
proof -
  from assms have "list_all2 same_but_related_row (transactions db) (transactions db')"
    unfolding same_but_related_def by (rule conjunct2)
  then show ?thesis unfolding get_transaction_def by (rule lookup_alike)
qed

lemma neighbours_same:
  assumes "same_but_related db db'"
  shows "child_ids db' x @ parent_ids db' x = child_ids db x @ parent_ids db x"
proof -
  from assms have "transaction_links db = transaction_links db'"
    unfolding same_but_related_def by (rule conjunct1)
  then show ?thesis unfolding child_ids_def parent_ids_def by (rule ssubst) (rule refl)
qed

lemma related_loop_alike:
  "list_all2 alike c c' \<Longrightarrow> same_but_related db db' \<Longrightarrow>
         rel_sum (=) (rel_prod (list_all2 alike) (=))
           (related_loop db ids (c, V)) (related_loop db' ids (c', V))"
proof (induction db ids "(c, V)" arbitrary: c V c' rule: related_loop.induct)
  case (1 db)
  then show ?case by simp
next
  case (2 db related_id rest chain visited)
  note same = "2.prems"(2) and cc = "2.prems"(1)
  note nb = neighbours_same [OF same, of related_id]
  show ?case
  proof (cases "related_id \<in> visited")
    case True
    with "2.hyps"(1) [OF True cc same] show ?thesis by simp
  next
    case nv: False
    note g = get_transaction_alike [OF same, of related_id]
    show ?thesis
    proof (cases "get_transaction db related_id")
      case (Inl e)
      from g [unfolded Inl] have "get_transaction db' related_id = Inl e" by (rule rel_sum_InlD)
      with Inl nv show ?thesis by simp
    next
      case (Inr found)
      from g [unfolded Inr] have "\<exists>found'. get_transaction db' related_id = Inr found' \<and>
          rel_option alike found found'" by (rule rel_sum_InrD)
      then obtain found' where g': "get_transaction db' related_id = Inr found'"
        and ff: "rel_option alike found found'" by blast
      show ?thesis
      proof (cases found)
        case None
        from ff [unfolded None] have "found' = None" by (rule rel_option_NoneD)
        with Inr None g' nv "2.hyps"(2) [OF nv Inr None cc same] show ?thesis by simp
      next
        case (Some t)
        from ff [unfolded Some] have "\<exists>t'. found' = Some t' \<and> alike t t'"
          by (rule rel_option_SomeD)
        then obtain t' where f': "found' = Some t'" and tt: "alike t t'" by blast
        let ?ids = "child_ids db related_id @ parent_ids db related_id"
        from tt cc have cc': "list_all2 alike (chain @ [t]) (c' @ [t'])"
          by (simp add: list_all2_appendI)
        from "2.hyps"(3) [OF nv Inr Some cc' same]
        have inner: "rel_sum (=) (rel_prod (list_all2 alike) (=))
            (related_loop db ?ids (chain @ [t], insert related_id visited))
            (related_loop db' ?ids (c' @ [t'], insert related_id visited))" .
        show ?thesis
        proof (cases "related_loop db ?ids (chain @ [t], insert related_id visited)")
          case (Inl e)
          from inner [unfolded Inl]
          have "related_loop db' ?ids (c' @ [t'], insert related_id visited) = Inl e"
            by (rule rel_sum_InlD)
          with Inl Inr Some g' f' nv nb show ?thesis by simp
        next
          case run: (Inr mid)
          obtain c1 V1 where mid: "mid = (c1, V1)" by (cases mid)
          from inner [unfolded run mid]
          have "\<exists>b. related_loop db' ?ids (c' @ [t'], insert related_id visited) = Inr b \<and>
              rel_prod (list_all2 alike) (=) (c1, V1) b" by (rule rel_sum_InrD)
          then obtain c1' where
            run': "related_loop db' ?ids (c' @ [t'], insert related_id visited) = Inr (c1', V1)"
            and c1: "list_all2 alike c1 c1'"
            by (auto simp: rel_prod_conv)
          from "2.hyps"(4) [OF nv Inr Some run [unfolded mid] c1 same]
          have "rel_sum (=) (rel_prod (list_all2 alike) (=))
                  (related_loop db rest (c1, V1)) (related_loop db' rest (c1', V1))" .
          with run run' mid Inr Some g' f' nv nb show ?thesis by simp
        qed
      qed
    qed
  qed
qed


lemma insort_timestamp_alike:
  "list_all2 alike ys ys' \<Longrightarrow> alike x x' \<Longrightarrow>
     rel_sum (=) (list_all2 alike) (insort_timestamp x ys) (insort_timestamp x' ys')"
proof (induction rule: list_all2_induct)
  case Nil
  then show ?case by simp
next
  case (Cons y ys y' ys')
  note tx = alike_timestamp [OF Cons.prems] and ty = alike_timestamp [OF Cons.hyps(1)]
  show ?case
  proof (cases "datetime_lt (timestamp x') (timestamp y')")
    case (Inl e)
    then show ?thesis by (simp add: tx ty)
  next
    case (Inr b)
    show ?thesis
    proof (cases b)
      case True
      with Inr Cons.hyps Cons.prems show ?thesis by (simp add: tx ty)
    next
      case False
      note ih = Cons.IH [OF Cons.prems]
      show ?thesis
      proof (cases "insort_timestamp x ys")
        case (Inl e)
        from ih [unfolded Inl] have "insort_timestamp x' ys' = Inl e" by (rule rel_sum_InlD)
        with Inl Inr False show ?thesis by (simp add: tx ty)
      next
        case zs: (Inr zs)
        from ih [unfolded zs] have "\<exists>zs'. insort_timestamp x' ys' = Inr zs' \<and> list_all2 alike zs zs'"
          by (rule rel_sum_InrD)
        then obtain zs' where "insort_timestamp x' ys' = Inr zs'" "list_all2 alike zs zs'"
          by blast
        with zs Inr False Cons.hyps(1) show ?thesis by (simp add: tx ty)
      qed
    qed
  qed
qed

lemma sort_into_alike:
  "list_all2 alike xs xs' \<Longrightarrow> list_all2 alike acc acc' \<Longrightarrow>
     rel_sum (=) (list_all2 alike) (sort_into acc xs) (sort_into acc' xs')"
proof (induction arbitrary: acc acc' rule: list_all2_induct)
  case Nil
  then show ?case by simp
next
  case (Cons x xs x' xs')
  note ins = insort_timestamp_alike [OF Cons.prems Cons.hyps(1)]
  show ?case
  proof (cases "insort_timestamp x acc")
    case (Inl e)
    from ins [unfolded Inl] have "insort_timestamp x' acc' = Inl e" by (rule rel_sum_InlD)
    with Inl show ?thesis by simp
  next
    case (Inr zs)
    from ins [unfolded Inr] have "\<exists>zs'. insort_timestamp x' acc' = Inr zs' \<and> list_all2 alike zs zs'"
      by (rule rel_sum_InrD)
    then obtain zs' where z: "insort_timestamp x' acc' = Inr zs'" "list_all2 alike zs zs'"
      by blast
    from Cons.IH [OF z(2)] Inr z(1) show ?thesis by simp
  qed
qed

lemma get_transaction_chain_alike:
  assumes same: "same_but_related db db'"
  shows "rel_sum (=) (list_all2 alike)
           (get_transaction_chain db i) (get_transaction_chain db' i)"
proof -
  note g = get_transaction_alike [OF same, of i]
  note nb = neighbours_same [OF same, of i]
  show ?thesis
  proof (cases "get_transaction db i")
    case (Inl e)
    from g [unfolded Inl] have "get_transaction db' i = Inl e" by (rule rel_sum_InlD)
    with Inl show ?thesis by (simp add: get_transaction_chain_def)
  next
    case (Inr found)
    from g [unfolded Inr] have "\<exists>found'. get_transaction db' i = Inr found' \<and>
        rel_option alike found found'" by (rule rel_sum_InrD)
    then obtain found' where g': "get_transaction db' i = Inr found'"
      and ff: "rel_option alike found found'" by blast
    show ?thesis
    proof (cases found)
      case None
      from ff [unfolded None] have "found' = None" by (rule rel_option_NoneD)
      with Inr None g' show ?thesis by (simp add: get_transaction_chain_def)
    next
      case (Some t)
      from ff [unfolded Some] have "\<exists>t'. found' = Some t' \<and> alike t t'"
        by (rule rel_option_SomeD)
      then obtain t' where f': "found' = Some t'" and tt: "alike t t'" by blast
      let ?ids = "child_ids db i @ parent_ids db i"
      from tt have "list_all2 alike [t] [t']" by simp
      from related_loop_alike [OF this same]
      have loop: "rel_sum (=) (rel_prod (list_all2 alike) (=))
          (related_loop db ?ids ([t], {i})) (related_loop db' ?ids ([t'], {i}))" .
      show ?thesis
      proof (cases "related_loop db ?ids ([t], {i})")
        case (Inl e)
        from loop [unfolded Inl] have "related_loop db' ?ids ([t'], {i}) = Inl e"
          by (rule rel_sum_InlD)
        with Inl Inr Some g' f' nb show ?thesis
          by (simp add: get_transaction_chain_def get_related_transactions_def)
      next
        case run: (Inr mid)
        obtain c V where mid: "mid = (c, V)" by (cases mid)
        from loop [unfolded run mid]
        have "\<exists>b. related_loop db' ?ids ([t'], {i}) = Inr b \<and>
            rel_prod (list_all2 alike) (=) (c, V) b" by (rule rel_sum_InrD)
        then obtain c' where run': "related_loop db' ?ids ([t'], {i}) = Inr (c', V)"
          and cc: "list_all2 alike c c'" by (auto simp: rel_prod_conv)
        have "rel_sum (=) (list_all2 alike) (sort_by_timestamp c) (sort_by_timestamp c')"
          unfolding sort_by_timestamp_def by (rule sort_into_alike [OF cc]) simp
        with run run' mid Inr Some g' f' nb show ?thesis
          by (simp add: get_transaction_chain_def get_related_transactions_def)
      qed
    qed
  qed
qed

lemma alike_map_erase: "list_all2 alike xs ys \<Longrightarrow> map erase_related xs = map erase_related ys"
  by (induction rule: list_all2_induct) (simp_all add: alike_def)

lemma chain_erased_alike:
  assumes "rel_sum (=) (list_all2 alike) x y"
  shows "map_sum id (map erase_related) x = map_sum id (map erase_related) y"
proof (cases x)
  case (Inl e)
  from assms [unfolded Inl] have "y = Inl e" by (rule rel_sum_InlD)
  with Inl show ?thesis by simp
next
  case (Inr xs)
  from assms [unfolded Inr] have "\<exists>ys. y = Inr ys \<and> list_all2 alike xs ys" by (rule rel_sum_InrD)
  then obtain ys where "y = Inr ys" "list_all2 alike xs ys" by blast
  with Inr show ?thesis by (simp add: alike_map_erase)
qed


lemma rows_same_but_related:
  "map forget_related rows = map forget_related rows' \<Longrightarrow>
   list_all (\<lambda>r. is_json (col_related_transactions r)) rows \<Longrightarrow>
   list_all (\<lambda>r. is_json (col_related_transactions r)) rows' \<Longrightarrow>
   list_all2 same_but_related_row rows rows'"
proof (induction rows arbitrary: rows')
  case Nil
  then show ?case by simp
next
  case (Cons r rows)
  from Cons.prems(1) obtain r' rest where rows': "rows' = r' # rest" by (cases rows') auto
  with Cons.prems have "same_but_related_row r r'" by (simp add: same_but_related_row_def)
  moreover from Cons.IH [of rest] Cons.prems rows'
  have "list_all2 same_but_related_row rows rest" by simp
  ultimately show ?case by (simp add: rows')
qed

lemma agree_same_but_related:
  "agree_except_related db db' \<Longrightarrow> related_json db \<Longrightarrow> related_json db' \<Longrightarrow>
     same_but_related db db'"
  by (simp add: agree_except_related_def related_json_def same_but_related_def
      rows_same_but_related)

lemma related_json_save: "related_json db \<Longrightarrow> related_json (fst (save_transaction db t))"
  by (auto simp: related_json_def save_transaction_def row_values_def json_dumps_def
      replace_row_def list_all_iff split: sum.splits option.splits)

lemma decode_ex_row_related:
  "valid_datetime ts \<Longrightarrow>
     decode_row ((ex_row i ts)\<lparr>col_related_transactions := JsonText (JArr [JStr c])\<rparr>) =
       Inr ((ex_tx i ts)\<lparr>related_transactions := PList [PStr c]\<rparr>)"
  using decode_row_row_values
    [of "(ex_tx i ts)\<lparr>related_transactions := PList [PStr c]\<rparr>" "JObj []" "JArr [JStr c]"]
  by (simp add: row_values_def json_dumps_def ex_tx_def ex_row_def)

lemma related_json_link:
  "related_json db \<Longrightarrow> related_json (fst (link_transactions db p c ty))"
proof -
  assume "related_json db"
  then have "related_json (db\<lparr>reserved := True\<rparr>)" by (simp add: related_json_def)
  then have "\<And>t. related_json (fst (save_transaction (db\<lparr>reserved := True\<rparr>) t))"
    by (rule related_json_save)
  then have "\<And>t d b. save_transaction (db\<lparr>reserved := True\<rparr>) t = (d, b) \<Longrightarrow>
      list_all (\<lambda>r. is_json (col_related_transactions r)) (transactions d)"
    by (metis fst_conv related_json_def)
  with \<open>related_json db\<close> show ?thesis
    by (auto simp: link_transactions_def Let_def related_json_def
        split: sum.splits option.splits bool.splits prod.splits)
qed


subsection \<open>The chain and the \<^verbatim>\<open>related_transactions\<close> column\<close>

text \<open>
  Claim C10. Two stores that agree on the link table and on every column of the
  transactions table but \<^verbatim>\<open>related_transactions\<close>, the cells of that column being JSON
  text in both as \<open>save_transaction\<close> writes them: for every start id
  \<open>get_transaction_chain\<close> raises the same exception in both, or returns lists of the
  same length whose records are equal position by position in every field but
  \<^verbatim>\<open>related_transactions\<close>.
\<close>

theorem chain_ignores_related_column:
  assumes "agree_except_related db db'" and "related_json db" and "related_json db'"
  shows "map_sum id (map erase_related) (get_transaction_chain db start) =
         map_sum id (map erase_related) (get_transaction_chain db' start)"
  by (rule chain_erased_alike, rule get_transaction_chain_alike, rule agree_same_but_related)
    (rule assms)+

theorem chain_ignores_related_column_witness:
  "agree_except_related ex_cycle ex_cached \<and> related_json ex_cycle \<and> related_json ex_cached \<and>
   get_transaction_chain ex_cycle ''A'' =
     Inr [ex_tx ''A'' (ex_datetime 1), ex_tx ''B'' (ex_datetime 2)] \<and>
   get_transaction_chain ex_cached ''A'' =
     Inr [(ex_tx ''A'' (ex_datetime 1))\<lparr>related_transactions := PList [PStr ''B'']\<rparr>,
          ex_tx ''B'' (ex_datetime 2)] \<and>
   map_sum id (map erase_related) (get_transaction_chain ex_cycle ''A'') =
     map_sum id (map erase_related) (get_transaction_chain ex_cached ''A'')"
proof -
  have h1: "agree_except_related ex_cycle ex_cached"
    by (simp add: agree_except_related_def ex_cycle_def ex_cached_def ex_store_def
        forget_related_def)
  have h2: "related_json ex_cycle"
    by (simp add: related_json_def ex_cycle_def ex_store_def ex_row_def)
  have h3: "related_json ex_cached"
    by (simp add: related_json_def ex_cached_def ex_store_def ex_row_def)
  have run: "get_transaction_chain ex_cycle ''A'' =
      Inr [ex_tx ''A'' (ex_datetime 1), ex_tx ''B'' (ex_datetime 2)]"
    by (simp add: ex_cycle_def chain_defs ex_simps)
  have run': "get_transaction_chain ex_cached ''A'' =
      Inr [(ex_tx ''A'' (ex_datetime 1))\<lparr>related_transactions := PList [PStr ''B'']\<rparr>,
           ex_tx ''B'' (ex_datetime 2)]"
    by (simp add: ex_cached_def chain_defs ex_simps decode_ex_row_related)
  from chain_ignores_related_column [OF h1 h2 h3, of "''A''"] h1 h2 h3 run run'
  show ?thesis by blast
qed

subsection \<open>The order of the timestamp texts\<close>





































lemma saved_row_written:
  assumes "row_values t = Inr r" and "valid_datetime (timestamp t)"
  shows "written_in_zone (tzinfo (timestamp t)) r"
proof -
  from assms(1) obtain j1 j2 where j: "to_json (raw_data t) = Some j1"
    "to_json (related_transactions t) = Some j2"
    by (auto simp: row_values_def json_dumps_def split: option.splits)
  from decode_row_row_values [OF assms(2) j] assms(1)
  have "decode_row r = Inr (t\<lparr>raw_data := of_json j1, related_transactions := of_json j2\<rparr>)"
    by simp
  moreover from assms(1) have "col_timestamp r = isoformat (timestamp t)"
    by (auto simp: row_values_def split: sum.splits)
  ultimately show ?thesis by (simp add: written_in_zone_def)
qed










subsection \<open>The order of \<open>get_all_transactions\<close>\<close>




end
